theory Spec2Isabelle
  imports Main
begin

section \<open>JavaScript strings and numbers used by session.js\<close>

text \<open>
  Strings are \<^typ>\<open>string\<close>. A JavaScript value used in a condition is truthy unless it
  is undefined, null or the empty string; an optional string is \<open>None\<close> when the
  property is undefined or null.
\<close>

definition truthy :: "string option \<Rightarrow> bool" where
  "truthy v = (case v of None \<Rightarrow> False | Some s \<Rightarrow> s \<noteq> [])"

text \<open>Conversion of an integral JavaScript number to its decimal string.\<close>

definition digit_char :: "nat \<Rightarrow> char" where
  "digit_char n = ''0123456789'' ! n"

fun show_nat :: "nat \<Rightarrow> string" where
  "show_nat n = (if n < 10 then [digit_char n] else show_nat (n div 10) @ [digit_char (n mod 10)])"

declare show_nat.simps [simp del]

definition show_int :: "int \<Rightarrow> string" where
  "show_int i = (if i < 0 then CHR ''-'' # show_nat (nat (- i)) else show_nat (nat i))"

text \<open>\<open>String.prototype.indexOf\<close>: the first position of the pattern, or \<open>-1\<close>.\<close>

fun indexOf_from :: "string \<Rightarrow> string \<Rightarrow> nat \<Rightarrow> int" where
  "indexOf_from [] pat i = (if pat = [] then int i else - 1)"
| "indexOf_from (c # cs) pat i =
     (if take (length pat) (c # cs) = pat then int i else indexOf_from cs pat (Suc i))"

definition indexOf :: "string \<Rightarrow> string \<Rightarrow> int" where
  "indexOf s pat = indexOf_from s pat 0"

text \<open>
  \<open>String.prototype.substring\<close>: both bounds are clamped to the string, and swapped
  when the first is the larger one.
\<close>

definition clamp_index :: "string \<Rightarrow> int \<Rightarrow> nat" where
  "clamp_index s i = min (length s) (nat i)"

definition substring2 :: "string \<Rightarrow> int \<Rightarrow> int \<Rightarrow> string" where
  "substring2 s i j =
     (let a = clamp_index s i; b = clamp_index s j
      in take (max a b - min a b) (drop (min a b) s))"

definition substring1 :: "string \<Rightarrow> int \<Rightarrow> string" where
  "substring1 s i = drop (clamp_index s i) s"

text \<open>\<open>makeChannelName\<close>: every slash becomes a dot.\<close>

definition makeChannelName :: "string \<Rightarrow> string" where
  "makeChannelName s = map (\<lambda>c. if c = CHR ''/'' then CHR ''.'' else c) s"

section \<open>Configuration\<close>

text \<open>
  The module \<open>config\<close> is read by session.js and defined elsewhere; the fields that
  session.js reads are the parameters of the model.
\<close>

record config =
  channelDomain :: string
  fanoutRealm :: "string option"
  requestExpirationTime :: nat
  sessionExpirationTime :: nat
  xmppHost :: string
  xmppPort :: nat
  xmppDomain :: string
  xmppAnonymousDomain :: "string option"
  xmppAnonymousHost :: "string option"
  xmppAnonymousPort :: "nat option"

section \<open>The cache with a time to live\<close>

text \<open>
  Modelled from the spec: the class \<open>cache.Cache\<close> (file cache.js, used by session.js and
  absent from the sources). An entry is a key, a value and the time of its insertion.
  \<open>put\<close> stores or refreshes an entry and restarts its window; \<open>get\<close> returns the
  value when the key is present and not expired and does not extend the window;
  \<open>remove\<close> deletes without any callback; an entry whose window has elapsed is
  handed to the \<open>onexpired\<close> callback once and removed. \<open>generateKey\<close> returns a key
  that is not in the cache: the model takes the generated key as an argument and
  \<open>generateKey_ok\<close> is the guarantee the spec gives about it.
\<close>

record ('k, 'v) cache =
  ttl :: nat
  centries :: "('k \<times> 'v \<times> nat) list"

definition new_cache :: "nat \<Rightarrow> ('k, 'v) cache" where
  "new_cache t = \<lparr>ttl = t, centries = []\<rparr>"

definition cache_remove :: "'k \<Rightarrow> ('k, 'v) cache \<Rightarrow> ('k, 'v) cache" where
  "cache_remove k c = c\<lparr>centries := filter (\<lambda>e. fst e \<noteq> k) (centries c)\<rparr>"

definition cache_put :: "nat \<Rightarrow> 'k \<Rightarrow> 'v \<Rightarrow> ('k, 'v) cache \<Rightarrow> ('k, 'v) cache" where
  "cache_put now k v c =
     c\<lparr>centries := filter (\<lambda>e. fst e \<noteq> k) (centries c) @ [(k, v, now)]\<rparr>"

definition cache_get :: "nat \<Rightarrow> 'k \<Rightarrow> ('k, 'v) cache \<Rightarrow> 'v option" where
  "cache_get now k c =
     (case find (\<lambda>e. fst e = k) (centries c) of
        None \<Rightarrow> None
      | Some (_, v, t) \<Rightarrow> if now < t + ttl c then Some v else None)"

definition cache_expired :: "nat \<Rightarrow> ('k, 'v) cache \<Rightarrow> ('k \<times> 'v \<times> nat) list" where
  "cache_expired now c = filter (\<lambda>(k, v, t). t + ttl c \<le> now) (centries c)"

definition generateKey_ok :: "('k, 'v) cache \<Rightarrow> 'k \<Rightarrow> bool" where
  "generateKey_ok c k = (k \<notin> fst ` set (centries c))"

section \<open>Stanzas\<close>

text \<open>
  An atom entry of a publish notification, as the stanza listener reads it: the text
  of \<open>a:id\<close> and the epoch milliseconds that \<open>iso8601.toDate\<close> and \<open>getTime\<close> give for
  the text of \<open>a:updated\<close> (the parsing library is outside the repository).
\<close>

record entry =
  entry_id :: string
  entry_updated :: int

text \<open>
  What a stanza holds below its root element, as far as session.js looks: the
  \<open>event/items\<close> element of a publish notification with its \<open>node\<close> attribute and its
  entries, the \<open>error\<close> element with its type and condition, and the subscribe
  request built by \<open>pubsub.subscribeIq\<close> (a builder outside the sources, kept
  symbolic with its arguments).
\<close>

datatype payload =
    NoPayload
  | EventItems string "entry list"
  | ErrorElem string string
  | SubscribeRequest string string bool

record stanza =
  st_name :: string
  st_id :: "string option"
  st_type :: "string option"
  st_from :: "string option"
  st_to :: "string option"
  st_payload :: payload

section \<open>Subscriptions, callbacks and effects\<close>

text \<open>
  The callbacks a caller passes in are opaque: each is named by a number, and calling
  one is recorded as an effect. The reply handler that \<open>subscribe\<close> passes to
  \<open>sendQuery\<close> is a closure of session.js over the subscription key and the
  subscription object; its body is \<open>subscribeReply\<close> below.
\<close>

datatype handler =
    UserReply nat
  | SubscribeReply string nat

record pending_item =
  onsub :: nat
  onerror :: nat

text \<open>
  A subscription object \<open>{state, pending, userData}\<close>. Objects live in a store and are
  named by their address, so that two references to one object see the same
  updates; \<open>userData\<close> is the address of the user data object.
\<close>

record sub =
  state :: string
  pending :: "pending_item list"
  userData :: nat

record item =
  item_id :: string
  item_time :: int
  item_entry :: entry

text \<open>The user data object starts as \<open>{}\<close>: \<open>items\<close> is undefined until the first notification.\<close>

record user_data =
  items :: "item list option"
  ud_from :: "string option"
  prevId :: "string option"
  lastPublishedId :: "string option"

definition empty_user_data :: user_data where
  "empty_user_data = \<lparr>items = None, ud_from = None, prevId = None, lastPublishedId = None\<rparr>"

text \<open>The feed that \<open>api.generateNodeFeedFromEntries\<close> builds, kept symbolic with its arguments.\<close>

record feed =
  feed_channel :: string
  feed_node :: string
  feed_from :: "string option"
  feed_entries :: "entry list"

datatype body = AtomXml feed | Json feed

record hr_item =
  content_type :: string
  hr_body :: body

record fanout_item =
  fo_id :: "string option"
  fo_prev_id :: "string option"
  http_response :: hr_item

record claim =
  claim_exp :: int
  claim_iss :: "string option"

datatype effect =
    Send stanza
  | ReplyCalled nat stanza
  | OnSubCalled nat nat
  | OnErrorCalled nat string
  | StanzaHandlerCalled nat stanza
  | HttpPost string claim "fanout_item list"
  | ConnectionEnd

datatype error = TypeError

section \<open>The session\<close>

text \<open>
  \<open>subsCache\<close> is the cache object \<open>_subs\<close> itself, \<open>subs\<close> the properties that
  session.js assigns on that object by key (\<open>this._subs[subkey]\<close>); keys are taken
  not to name a member the cache object already has. \<open>stanzaHandlers\<close> are the
  listeners that \<open>onStanza\<close> adds to the connection after the session's own
  listener; a handler is named by a number and its return value is a predicate.
\<close>

record session =
  sess_id :: "string option"
  jid :: string
  replyHandlers :: "(string, handler) cache"
  subsCache :: "(string, nat) cache"
  subs :: "string \<rightharpoonup> nat"
  subsPresences :: "string \<rightharpoonup> nat"
  subObjs :: "nat \<Rightarrow> sub"
  udObjs :: "nat \<Rightarrow> user_data"
  nextRef :: nat
  stanzaHandlers :: "(nat \<times> (stanza \<Rightarrow> bool)) list"
  clock :: nat
  effects :: "effect list"

definition emit :: "effect \<Rightarrow> session \<Rightarrow> session" where
  "emit e s = s\<lparr>effects := effects s @ [e]\<rparr>"

definition Session :: "config \<Rightarrow> string option \<Rightarrow> string \<Rightarrow> nat \<Rightarrow> session" where
  "Session cfg i j now =
     \<lparr>sess_id = i, jid = j,
      replyHandlers = new_cache (requestExpirationTime cfg),
      subsCache = new_cache (sessionExpirationTime cfg),
      subs = Map.empty, subsPresences = Map.empty,
      subObjs = (\<lambda>_. \<lparr>state = [], pending = [], userData = 0\<rparr>),
      udObjs = (\<lambda>_. empty_user_data),
      nextRef = 0, stanzaHandlers = [], clock = now, effects = []\<rparr>"

subsection \<open>Queries and replies\<close>

text \<open>
  \<open>sendQuery(iq, onreply)\<close>; \<open>queryId\<close> is what \<open>this._replyHandlers.generateKey()\<close>
  returned.
\<close>

definition sendQuery :: "config \<Rightarrow> string \<Rightarrow> stanza \<Rightarrow> handler \<Rightarrow> session \<Rightarrow> session" where
  "sendQuery cfg queryId iq onreply s =
     (let s1 = s\<lparr>replyHandlers := cache_put (clock s) queryId onreply (replyHandlers s)\<rparr>;
          iq1 = iq\<lparr>st_from := Some (jid s), st_to := Some (channelDomain cfg),
                   st_id := Some queryId\<rparr>
      in emit (Send iq1) s1)"

definition replyToQuery :: "stanza \<Rightarrow> session \<Rightarrow> session" where
  "replyToQuery iq s =
     emit (Send \<lparr>st_name = ''iq'', st_id = st_id iq, st_type = Some ''result'',
                 st_from = st_to iq, st_to = st_from iq, st_payload = NoPayload\<rparr>) s"

definition endSession :: "session \<Rightarrow> session" where
  "endSession s = emit ConnectionEnd s"

text \<open>
  The reply handler of \<open>subscribe\<close>: the function passed to \<open>sendQuery\<close> at the end of
  \<open>subscribe\<close>, closed over \<open>subkey\<close> and the subscription object at address \<open>a\<close>.
\<close>

definition subscribeReply :: "string \<Rightarrow> nat \<Rightarrow> stanza \<Rightarrow> session \<Rightarrow> session" where
  "subscribeReply subkey a reply s =
     (if st_type reply = Some ''result'' then
        (let s1 = s\<lparr>subObjs := (subObjs s)(a := (subObjs s a)\<lparr>state := ''subscribed''\<rparr>)\<rparr>
         in foldl (\<lambda>s' p. emit (OnSubCalled (onsub p) (userData (subObjs s' a))) s')
              s1 (pending (subObjs s1 a)))
      else
        (let pend = pending (subObjs s a);
             s1 = s\<lparr>subs := (subs s)(subkey := None)\<rparr>
         in foldl (\<lambda>s' p. emit (OnErrorCalled (onerror p) ''failed'') s') s1 pend))"

definition callHandler :: "handler \<Rightarrow> stanza \<Rightarrow> session \<Rightarrow> session" where
  "callHandler h st s =
     (case h of
        UserReply n \<Rightarrow> emit (ReplyCalled n st) s
      | SubscribeReply subkey a \<Rightarrow> subscribeReply subkey a st s)"

text \<open>
  \<open>_setupExpirationHandler\<close>: the reply handler cache calls an expired handler with an
  \<open>iq\<close> of type error that holds \<open>error type='cancel'\<close> and \<open>service-unavailable\<close>. No
  callback is installed on \<open>_subs\<close> (the assignment is commented out in the source).
\<close>

definition serviceUnavailable :: stanza where
  "serviceUnavailable =
     \<lparr>st_name = ''iq'', st_id = None, st_type = Some ''error'', st_from = None,
      st_to = None, st_payload = ErrorElem ''cancel'' ''service-unavailable''\<rparr>"

definition replyHandlers_onexpired :: "handler \<Rightarrow> session \<Rightarrow> session" where
  "replyHandlers_onexpired h s = callHandler h serviceUnavailable s"

fun expireReplyHandlers :: "(string \<times> handler \<times> nat) list \<Rightarrow> session \<Rightarrow> session" where
  "expireReplyHandlers [] s = s"
| "expireReplyHandlers ((k, h, t) # es) s =
     expireReplyHandlers es
       (let s1 = replyHandlers_onexpired h s
        in s1\<lparr>replyHandlers := cache_remove k (replyHandlers s1)\<rparr>)"

text \<open>
  Time passes: the clock advances by \<open>dt\<close> and both caches of the session evict what
  has expired, the reply handlers through their callback, \<open>_subs\<close> without one.
\<close>

definition tick :: "nat \<Rightarrow> session \<Rightarrow> session" where
  "tick dt s =
     (let s1 = s\<lparr>clock := clock s + dt\<rparr>;
          s2 = expireReplyHandlers (cache_expired (clock s1) (replyHandlers s1)) s1
      in s2\<lparr>subsCache := (subsCache s2)
              \<lparr>centries := filter (\<lambda>(k, v, t). \<not> t + ttl (subsCache s2) \<le> clock s2)
                              (centries (subsCache s2))\<rparr>\<rparr>)"

text \<open>
  The key of a subscription in \<open>_subs\<close>, computed alike by \<open>subscribe\<close> and by the
  stanza listener: \<open>pubjid + "_" + nodeId\<close> with \<open>pubjid = config.channelDomain\<close>.
\<close>

definition subkeyOf :: "config \<Rightarrow> string \<Rightarrow> string" where
  "subkeyOf cfg nodeId = channelDomain cfg @ ''_'' @ nodeId"

subsection \<open>Fan-out\<close>

definition js_string :: "string option \<Rightarrow> string" where
  "js_string v = (case v of None \<Rightarrow> ''undefined'' | Some x \<Rightarrow> x)"

text \<open>
  \<open>fanoutPublish(channel, id, prevId, hrItem)\<close>: the request posted to the fan-out
  service, with the claim of its token (the encoding is left to the library).
\<close>

definition fanoutPublish ::
  "config \<Rightarrow> string \<Rightarrow> string option \<Rightarrow> string option \<Rightarrow> hr_item \<Rightarrow> session \<Rightarrow> session" where
  "fanoutPublish cfg channel i prev hrItem s =
     (let it = \<lparr>fo_id = (if truthy i then i else None),
                fo_prev_id = (if truthy prev then prev else None),
                http_response = hrItem\<rparr>;
          cl = \<lparr>claim_exp = int (clock s) div 1000 + 3600, claim_iss = fanoutRealm cfg\<rparr>;
          path = ''/realm/'' @ js_string (fanoutRealm cfg) @ ''/publish/'' @ channel @ ''/''
      in emit (HttpPost path cl [it]) s)"

definition mkItem :: "entry \<Rightarrow> item" where
  "mkItem e = \<lparr>item_id = entry_id e, item_time = (entry_updated e div 1000) * 1000,
              item_entry = e\<rparr>"

text \<open>
  The block under \<open>if (config.fanoutRealm)\<close> of the stanza listener, for the user data
  object at address \<open>u\<close>. Reading \<open>item.id\<close> of the last item throws when there is no
  item.
\<close>

definition fanoutItems ::
  "config \<Rightarrow> string \<Rightarrow> entry list \<Rightarrow> nat \<Rightarrow> session \<Rightarrow> error + session" where
  "fanoutItems cfg nodeId entries u s =
     (let ud = udObjs s u
      in case items ud of
           None \<Rightarrow> Inl TypeError
         | Some its \<Rightarrow>
             if its = [] then Inl TypeError
             else
               (let it = last its;
                    foId = item_id it @ ''_'' @ show_int (item_time it);
                    foPrevId = (if truthy (lastPublishedId ud) then lastPublishedId ud else None);
                    s1 = s\<lparr>udObjs := (udObjs s)(u := ud\<lparr>lastPublishedId := Some foId\<rparr>)\<rparr>;
                    at = indexOf nodeId ''/user/'';
                    channelAndNode = substring1 nodeId (at + 6);
                    at2 = indexOf channelAndNode ''/'';
                    channel = substring2 channelAndNode 0 at2;
                    node = substring1 channelAndNode (at2 + 1);
                    fd = \<lparr>feed_channel = channel, feed_node = node, feed_from = ud_from ud,
                          feed_entries = entries\<rparr>;
                    foChannel = makeChannelName (jid s @ ''_'' @ nodeId);
                    s2 = fanoutPublish cfg (foChannel @ ''-atom'') (Some foId) foPrevId
                           \<lparr>content_type = ''application/atom+xml'', hr_body = AtomXml fd\<rparr> s1;
                    s3 = fanoutPublish cfg (foChannel @ ''-json'') (Some foId) foPrevId
                           \<lparr>content_type = ''application/json'', hr_body = Json fd\<rparr> s2
                in Inr s3))"

subsection \<open>The stanza listener\<close>

text \<open>The block under \<open>if (items)\<close>: a message that holds \<open>event/items\<close> for \<open>nodeId\<close>.\<close>

definition publishItems ::
  "config \<Rightarrow> stanza \<Rightarrow> string \<Rightarrow> entry list \<Rightarrow> session \<Rightarrow> error + session" where
  "publishItems cfg stanza nodeId entries s =
     (let pubjid = channelDomain cfg;
          subkey = subkeyOf cfg nodeId
      in case subs s subkey of
           None \<Rightarrow> Inr s
         | Some a \<Rightarrow>
             (let u = userData (subObjs s a);
                  ud0 = udObjs s u;
                  ud1 = (if items ud0 = None
                         then ud0\<lparr>items := Some [], ud_from := st_from stanza,
                                  prevId := None, lastPublishedId := None\<rparr>
                         else ud0);
                  its = (case items ud1 of None \<Rightarrow> [] | Some xs \<Rightarrow> xs) @ map mkItem entries;
                  s1 = s\<lparr>udObjs := (udObjs s)(u := ud1\<lparr>items := Some its\<rparr>)\<rparr>
              in if truthy (fanoutRealm cfg) then fanoutItems cfg nodeId entries u s1
                 else Inr s1))"

text \<open>The last block of the listener: a stanza with an id that has a reply handler.\<close>

definition dispatchReply :: "stanza \<Rightarrow> session \<Rightarrow> session" where
  "dispatchReply stanza s =
     (case st_id stanza of
        None \<Rightarrow> s
      | Some i \<Rightarrow>
          if i = [] then s
          else (case cache_get (clock s) i (replyHandlers s) of
                  None \<Rightarrow> s
                | Some h \<Rightarrow>
                    callHandler h stanza
                      (s\<lparr>replyHandlers := cache_remove i (replyHandlers s)\<rparr>)))"

definition stanzaListener :: "config \<Rightarrow> stanza \<Rightarrow> session \<Rightarrow> error + session" where
  "stanzaListener cfg stanza s =
     (case (if st_name stanza = ''message''
            then (case st_payload stanza of
                    EventItems nodeId entries \<Rightarrow> publishItems cfg stanza nodeId entries s
                  | _ \<Rightarrow> Inr s)
            else Inr s) of
        Inl e \<Rightarrow> Inl e
      | Inr s1 \<Rightarrow> Inr (dispatchReply stanza s1))"

subsection \<open>onStanza\<close>

text \<open>
  \<open>onStanza(handler)\<close> adds a listener to the connection. The listener calls the
  handler; when the handler returns a truthy value it evaluates
  \<open>this._connection.removeListener(callback)\<close>, where \<open>this\<close> is the connection that
  emits the stanza and not the session: the connection object has no property
  \<open>_connection\<close>, so the call is made on undefined and throws. (The call also
  lacks the event name that \<open>removeListener\<close> takes before the listener.) The
  listener stays registered.
\<close>

definition onStanza :: "nat \<Rightarrow> (stanza \<Rightarrow> bool) \<Rightarrow> session \<Rightarrow> session" where
  "onStanza n handler s = s\<lparr>stanzaHandlers := stanzaHandlers s @ [(n, handler)]\<rparr>"

definition onStanzaCallback ::
  "nat \<times> (stanza \<Rightarrow> bool) \<Rightarrow> stanza \<Rightarrow> session \<Rightarrow> error + session" where
  "onStanzaCallback h stanza s =
     (let s1 = emit (StanzaHandlerCalled (fst h) stanza) s
      in if snd h stanza then Inl TypeError else Inr s1)"

fun runStanzaHandlers ::
  "(nat \<times> (stanza \<Rightarrow> bool)) list \<Rightarrow> stanza \<Rightarrow> session \<Rightarrow> error + session" where
  "runStanzaHandlers [] stanza s = Inr s"
| "runStanzaHandlers (h # hs) stanza s =
     (case onStanzaCallback h stanza s of
        Inl e \<Rightarrow> Inl e
      | Inr s1 \<Rightarrow> runStanzaHandlers hs stanza s1)"

text \<open>The connection emits a stanza: the listeners run in the order of their registration.\<close>

definition receiveStanza :: "config \<Rightarrow> stanza \<Rightarrow> session \<Rightarrow> error + session" where
  "receiveStanza cfg stanza s =
     (case stanzaListener cfg stanza s of
        Inl e \<Rightarrow> Inl e
      | Inr s1 \<Rightarrow> runStanzaHandlers (stanzaHandlers s1) stanza s1)"

subsection \<open>subscribe\<close>

definition subscribeIq :: "string \<Rightarrow> string \<Rightarrow> bool \<Rightarrow> stanza" where
  "subscribeIq nodeId j b =
     \<lparr>st_name = ''iq'', st_id = None, st_type = Some ''set'', st_from = None,
      st_to = None, st_payload = SubscribeRequest nodeId j b\<rparr>"

definition presence :: "string \<Rightarrow> string \<Rightarrow> stanza" where
  "presence f t =
     \<lparr>st_name = ''presence'', st_id = None, st_type = None, st_from = Some f,
      st_to = Some t, st_payload = NoPayload\<rparr>"

text \<open>
  \<open>subscribe(nodeId, onsub, onerror)\<close>; \<open>queryId\<close> is the key that \<open>sendQuery\<close> obtains
  from \<open>generateKey\<close> when a request is sent. In the branch where a count is
  already stored, \<open>++refs\<close> changes the local variable only.
\<close>

definition subscribe ::
  "config \<Rightarrow> string \<Rightarrow> string \<Rightarrow> nat \<Rightarrow> nat \<Rightarrow> session \<Rightarrow> session" where
  "subscribe cfg queryId nodeId onsub_cb onerror_cb s =
     (let pubjid = channelDomain cfg;
          subkey = subkeyOf cfg nodeId;
          p = \<lparr>onsub = onsub_cb, onerror = onerror_cb\<rparr>
      in case subs s subkey of
           Some a \<Rightarrow>
             (let sb = subObjs s a
              in if state sb = ''subscribed'' then emit (OnSubCalled onsub_cb (userData sb)) s
                 else if state sb = ''subscribing''
                 then s\<lparr>subObjs := (subObjs s)(a := sb\<lparr>pending := pending sb @ [p]\<rparr>)\<rparr>
                 else emit (OnErrorCalled onerror_cb ''an error that should not happen'') s)
         | None \<Rightarrow>
             (let a = nextRef s;
                  s1 = s\<lparr>subObjs := (subObjs s)
                            (a := \<lparr>state = ''subscribing'', pending = [p], userData = a\<rparr>),
                          udObjs := (udObjs s)(a := empty_user_data),
                          nextRef := Suc a,
                          subs := (subs s)(subkey \<mapsto> a)\<rparr>;
                  s2 = (case subsPresences s1 pubjid of
                          None \<Rightarrow>
                            emit (Send (presence (jid s1) pubjid))
                              (s1\<lparr>subsPresences := (subsPresences s1)(pubjid \<mapsto> 1)\<rparr>)
                        | Some refs \<Rightarrow>
                            if refs = 0
                            then emit (Send (presence (jid s1) pubjid))
                                   (s1\<lparr>subsPresences := (subsPresences s1)(pubjid \<mapsto> 1)\<rparr>)
                            else s1)
              in sendQuery cfg queryId (subscribeIq nodeId (jid s2) True)
                   (SubscribeReply subkey a) s2))"

subsection \<open>Runs of a session\<close>

datatype event =
    SendQueryEv string stanza nat
  | SubscribeEv string string nat nat
  | StanzaEv stanza
  | TickEv nat
  | OnStanzaEv nat "stanza \<Rightarrow> bool"
  | ReplyToQueryEv stanza
  | EndEv

fun step :: "config \<Rightarrow> event \<Rightarrow> session \<Rightarrow> error + session" where
  "step cfg (SendQueryEv queryId iq n) s = Inr (sendQuery cfg queryId iq (UserReply n) s)"
| "step cfg (SubscribeEv queryId nodeId a b) s = Inr (subscribe cfg queryId nodeId a b s)"
| "step cfg (StanzaEv stanza) s = receiveStanza cfg stanza s"
| "step cfg (TickEv dt) s = Inr (tick dt s)"
| "step cfg (OnStanzaEv n h) s = Inr (onStanza n h s)"
| "step cfg (ReplyToQueryEv iq) s = Inr (replyToQuery iq s)"
| "step cfg EndEv s = Inr (endSession s)"

text \<open>A throwing listener ends the run.\<close>

fun run :: "config \<Rightarrow> event list \<Rightarrow> session \<Rightarrow> error + session" where
  "run cfg [] s = Inr s"
| "run cfg (e # es) s = (case step cfg e s of Inl x \<Rightarrow> Inl x | Inr s1 \<Rightarrow> run cfg es s1)"

section \<open>The session provider\<close>

text \<open>
  The value a connection passes to its error listeners: a string, an object (with the
  string its conversion to a primitive gives), or nothing (undefined or null). \<open>==\<close>
  against a string converts an object first; \<open>!err\<close> holds for nothing and for the
  empty string.
\<close>

datatype conn_error = ErrString string | ErrObject string | ErrAbsent

definition err_truthy :: "conn_error \<Rightarrow> bool" where
  "err_truthy e = (case e of ErrString x \<Rightarrow> x \<noteq> [] | ErrObject _ \<Rightarrow> True | ErrAbsent \<Rightarrow> False)"

definition loose_eq :: "conn_error \<Rightarrow> string \<Rightarrow> bool" where
  "loose_eq e t = (case e of ErrString x \<Rightarrow> x = t | ErrObject x \<Rightarrow> x = t | ErrAbsent \<Rightarrow> False)"

text \<open>
  The provider reads the id of a session object and otherwise passes it on; the
  object is named by the client connection it was made for.
\<close>

record session_obj =
  so_id :: "string option"
  so_client :: nat

record request =
  header_session_id :: "string option"
  req_user :: "string option"
  req_password :: "string option"
  req_session :: "session_obj option"

record conn_options =
  opt_jid :: string
  opt_password :: "string option"
  opt_host :: string
  opt_port :: nat

text \<open>
  The \<open>next\<close> argument of \<open>createSession\<close> and \<open>provideSession\<close>: the next middleware, or
  the function that \<open>useAnonymousSession\<close> wraps around it.
\<close>

datatype next_fn = NextMiddleware | AnonymousNext

datatype action =
    SetHeader string string
  | SendUnauthorized
  | Next conn_error
  | Connect conn_options next_fn

record server =
  anonymousSession :: "session_obj option"
  sessionCache :: "(string, session_obj) cache"
  srv_clock :: nat

text \<open>The server, the request being handled and what has been done for it so far.\<close>

record handling =
  srv :: server
  req :: request
  actions :: "action list"

definition act :: "action \<Rightarrow> handling \<Rightarrow> handling" where
  "act a h = h\<lparr>actions := actions h @ [a]\<rparr>"

text \<open>
  Calling \<open>next(err)\<close>. The function that \<open>useAnonymousSession\<close> passes stores
  \<open>req.session\<close> in \<open>anonymousSession\<close> when \<open>!err\<close>, then calls the next middleware.
\<close>

definition callNext :: "next_fn \<Rightarrow> conn_error \<Rightarrow> handling \<Rightarrow> handling" where
  "callNext k err h =
     (case k of
        NextMiddleware \<Rightarrow> act (Next err) h
      | AnonymousNext \<Rightarrow>
          act (Next err)
            (if \<not> err_truthy err
             then h\<lparr>srv := (srv h)\<lparr>anonymousSession := req_session (req h)\<rparr>\<rparr>
             else h))"

definition provideSession :: "session_obj \<Rightarrow> next_fn \<Rightarrow> handling \<Rightarrow> handling" where
  "provideSession session k h =
     (let h1 = h\<lparr>req := (req h)\<lparr>req_session := Some session\<rparr>\<rparr>;
          h2 = (case so_id session of
                  None \<Rightarrow> h1
                | Some i \<Rightarrow>
                    if i = [] then h1
                    else act (SetHeader ''X-Session-Id'' i)
                           (h1\<lparr>srv := (srv h1)\<lparr>sessionCache :=
                                  cache_put (srv_clock (srv h1)) i session
                                    (sessionCache (srv h1))\<rparr>\<rparr>))
      in callNext k ErrAbsent h2)"

definition xmppConnectionOptions :: "config \<Rightarrow> request \<Rightarrow> conn_options" where
  "xmppConnectionOptions cfg r =
     (if truthy (req_user r)
      then \<lparr>opt_jid = js_string (req_user r), opt_password = req_password r,
            opt_host = xmppHost cfg, opt_port = xmppPort cfg\<rparr>
      else
        (let domain = (if truthy (xmppAnonymousDomain cfg)
                       then js_string (xmppAnonymousDomain cfg) else xmppDomain cfg);
             host = (if truthy (xmppAnonymousHost cfg)
                     then js_string (xmppAnonymousHost cfg) else xmppHost cfg);
             port = (case xmppAnonymousPort cfg of
                       None \<Rightarrow> xmppPort cfg
                     | Some p \<Rightarrow> if p = 0 then xmppPort cfg else p)
         in \<lparr>opt_jid = ''@'' @ domain, opt_password = None, opt_host = host,
              opt_port = port\<rparr>))"

text \<open>
  \<open>createSession\<close> makes a client and registers two listeners on it; the bodies of
  the listeners are \<open>createSession_online\<close> and \<open>createSession_error\<close>. \<open>client\<close> names
  the client, \<open>key\<close> is what \<open>sessionCache.generateKey()\<close> returns.
\<close>

definition createSession :: "config \<Rightarrow> next_fn \<Rightarrow> handling \<Rightarrow> handling" where
  "createSession cfg k h = act (Connect (xmppConnectionOptions cfg (req h)) k) h"

definition createSession_online :: "string \<Rightarrow> nat \<Rightarrow> next_fn \<Rightarrow> handling \<Rightarrow> handling" where
  "createSession_online key client k h =
     (let sessionId = (if truthy (req_user (req h)) then Some key else None)
      in provideSession \<lparr>so_id = sessionId, so_client = client\<rparr> k h)"

definition createSession_error :: "conn_error \<Rightarrow> next_fn \<Rightarrow> handling \<Rightarrow> handling" where
  "createSession_error err k h =
     (if loose_eq err ''XMPP authentication failure'' then act SendUnauthorized h
      else callNext k err h)"

definition useAnonymousSession :: "config \<Rightarrow> handling \<Rightarrow> handling" where
  "useAnonymousSession cfg h =
     (case anonymousSession (srv h) of
        Some a \<Rightarrow> provideSession a NextMiddleware h
      | None \<Rightarrow> createSession cfg AnonymousNext h)"

definition processSessionId :: "config \<Rightarrow> string \<Rightarrow> handling \<Rightarrow> handling" where
  "processSessionId cfg sessionId h =
     (case cache_get (srv_clock (srv h)) sessionId (sessionCache (srv h)) of
        Some session \<Rightarrow> provideSession session NextMiddleware h
      | None \<Rightarrow>
          if truthy (req_user (req h)) then createSession cfg NextMiddleware h
          else act SendUnauthorized h)"

definition provider :: "config \<Rightarrow> handling \<Rightarrow> handling" where
  "provider cfg h =
     (if truthy (header_session_id (req h))
      then processSessionId cfg (js_string (header_session_id (req h))) h
      else if truthy (req_user (req h)) then createSession cfg NextMiddleware h
      else useAnonymousSession cfg h)"

text \<open>A request with no session id and no credentials.\<close>

definition anonymous :: "request \<Rightarrow> bool" where
  "anonymous r = (\<not> truthy (header_session_id r) \<and> \<not> truthy (req_user r))"

text \<open>A request as it reaches the provider, with nothing done for it yet.\<close>

definition incoming :: "server \<Rightarrow> request \<Rightarrow> handling" where
  "incoming sv r = \<lparr>srv = sv, req = r, actions = []\<rparr>"

section \<open>Reading the effects of a run\<close>

text \<open>
  The subscribe requests for a node and the presence stanzas among the effects, the
  items posted to the fan-out service, and the id the spec gives for the emission
  of an entry: its id, an underscore and its update time cut to whole seconds (the
  listener keeps the time in milliseconds).
\<close>

definition isSubscribeRequest :: "string \<Rightarrow> effect \<Rightarrow> bool" where
  "isSubscribeRequest nodeId e =
     (case e of
        Send st \<Rightarrow> (case st_payload st of SubscribeRequest n _ _ \<Rightarrow> n = nodeId | _ \<Rightarrow> False)
      | _ \<Rightarrow> False)"

definition isPresence :: "effect \<Rightarrow> bool" where
  "isPresence e = (case e of Send st \<Rightarrow> st_name st = ''presence'' | _ \<Rightarrow> False)"

definition posted :: "effect \<Rightarrow> fanout_item list" where
  "posted e = (case e of HttpPost _ _ its \<Rightarrow> its | _ \<Rightarrow> [])"

definition posts :: "effect list \<Rightarrow> fanout_item list" where
  "posts es = concat (map posted es)"

definition emissionId :: "entry \<Rightarrow> string" where
  "emissionId e = entry_id e @ ''_'' @ show_int ((entry_updated e div 1000) * 1000)"

text \<open>
  The stanzas with which the reply callback \<open>n\<close> was called, in order; how many
  entries of the reply handler cache hold a handler; the keys generated for the
  queries sent with callback \<open>n\<close> in a run, and the stanzas that arrived in it.
\<close>

definition replyCalls :: "nat \<Rightarrow> effect list \<Rightarrow> stanza list" where
  "replyCalls n es =
     concat (map (\<lambda>e. case e of ReplyCalled m st \<Rightarrow> if m = n then [st] else [] | _ \<Rightarrow> []) es)"

definition stored :: "handler \<Rightarrow> session \<Rightarrow> nat" where
  "stored h s = length (filter (\<lambda>e. fst (snd e) = h) (centries (replyHandlers s)))"

definition queryIds :: "nat \<Rightarrow> event list \<Rightarrow> string list" where
  "queryIds n evs =
     concat (map (\<lambda>e. case e of SendQueryEv q _ m \<Rightarrow> if m = n then [q] else [] | _ \<Rightarrow> []) evs)"

definition inbound :: "event list \<Rightarrow> stanza list" where
  "inbound evs = concat (map (\<lambda>e. case e of StanzaEv st \<Rightarrow> [st] | _ \<Rightarrow> []) evs)"

text \<open>
  The argument of a call of callback \<open>n\<close> is accounted for when it is the synthesized
  error or an inbound stanza whose id is a key of a query with that callback;
  \<open>tracked\<close> says so of every call made so far, and that every stored handler with
  that callback sits under such a key.
\<close>

definition fromQuery :: "nat \<Rightarrow> event list \<Rightarrow> stanza \<Rightarrow> bool" where
  "fromQuery n evs st =
     (st = serviceUnavailable \<or>
      (st \<in> set (inbound evs) \<and> (\<exists>q \<in> set (queryIds n evs). st_id st = Some q)))"

definition tracked :: "nat \<Rightarrow> event list \<Rightarrow> session \<Rightarrow> bool" where
  "tracked n evs s =
     ((\<forall>e \<in> set (centries (replyHandlers s)).
          fst (snd e) = UserReply n \<longrightarrow> fst e \<in> set (queryIds n evs))
      \<and> (\<forall>st \<in> set (replyCalls n (effects s)). fromQuery n evs st))"

text \<open>
  The entry of key \<open>k\<close> is the subscription object at \<open>a\<close>, in state subscribed. The
  invariant of the reachable states: nothing is in the cache \<open>_subs\<close>; the reply
  handler cache has one entry per key; a stored reply handler of \<open>subscribe\<close> belongs
  to the current entry of its key, which is still subscribing; no two stored
  handlers belong to one subscription object; and every entry is an allocated
  object.
\<close>

definition subscribedAt :: "string \<Rightarrow> nat \<Rightarrow> session \<Rightarrow> bool" where
  "subscribedAt k a s = (subs s k = Some a \<and> state (subObjs s a) = ''subscribed'')"

definition subsInv :: "session \<Rightarrow> bool" where
  "subsInv s =
     (centries (subsCache s) = []
      \<and> distinct (map fst (centries (replyHandlers s)))
      \<and> (\<forall>q k a t. (q, SubscribeReply k a, t) \<in> set (centries (replyHandlers s)) \<longrightarrow>
            subs s k = Some a \<and> state (subObjs s a) = ''subscribing'' \<and> a < nextRef s)
      \<and> (\<forall>q k a t q' k' t'.
            (q, SubscribeReply k a, t) \<in> set (centries (replyHandlers s))
            \<and> (q', SubscribeReply k' a, t') \<in> set (centries (replyHandlers s)) \<longrightarrow> q = q')
      \<and> (\<forall>k a. subs s k = Some a \<longrightarrow> a < nextRef s))"

text \<open>
  The calls of reply handlers, read off the two places of session.js that call one:
  \<open>handler(stanza)\<close> at the end of the stanza listener, for the handler found under
  the id of the stanza (\<open>dispatched\<close>), and \<open>handler(error)\<close> in the expiration
  callback, for every handler that expires. \<open>stepInvoked\<close> lists the calls one event
  makes, a stanza making none when the listener throws before it reaches the
  lookup; \<open>stepSent\<close> lists the key and the handler that one event passes to
  \<open>sendQuery\<close>, be it the caller's callback or the closure of \<open>subscribe\<close>. \<open>invoked\<close>
  and \<open>sent\<close> collect them along a run, up to and including a step that throws.
\<close>

definition dispatched :: "stanza \<Rightarrow> session \<Rightarrow> (handler \<times> stanza) list" where
  "dispatched stanza s =
     (case st_id stanza of
        None \<Rightarrow> []
      | Some i \<Rightarrow>
          if i = [] then []
          else (case cache_get (clock s) i (replyHandlers s) of
                  None \<Rightarrow> []
                | Some h \<Rightarrow> [(h, stanza)]))"

definition stepInvoked :: "config \<Rightarrow> event \<Rightarrow> session \<Rightarrow> (handler \<times> stanza) list" where
  "stepInvoked cfg e s =
     (case e of
        StanzaEv stanza \<Rightarrow>
          (case stanzaListener cfg stanza s of Inl _ \<Rightarrow> [] | Inr _ \<Rightarrow> dispatched stanza s)
      | TickEv dt \<Rightarrow>
          map (\<lambda>(k, h, t). (h, serviceUnavailable))
            (cache_expired (clock s + dt) (replyHandlers s))
      | _ \<Rightarrow> [])"

definition stepSent :: "config \<Rightarrow> event \<Rightarrow> session \<Rightarrow> (string \<times> handler) list" where
  "stepSent cfg e s =
     (case e of
        SendQueryEv q iq n \<Rightarrow> [(q, UserReply n)]
      | SubscribeEv q nodeId f g \<Rightarrow>
          (case subs s (subkeyOf cfg nodeId) of
             None \<Rightarrow> [(q, SubscribeReply (subkeyOf cfg nodeId) (nextRef s))]
           | Some _ \<Rightarrow> [])
      | _ \<Rightarrow> [])"

fun invoked :: "config \<Rightarrow> event list \<Rightarrow> session \<Rightarrow> (handler \<times> stanza) list" where
  "invoked cfg [] s = []"
| "invoked cfg (e # es) s =
     stepInvoked cfg e s @ (case step cfg e s of Inl _ \<Rightarrow> [] | Inr s1 \<Rightarrow> invoked cfg es s1)"

fun sent :: "config \<Rightarrow> event list \<Rightarrow> session \<Rightarrow> (string \<times> handler) list" where
  "sent cfg [] s = []"
| "sent cfg (e # es) s =
     stepSent cfg e s @ (case step cfg e s of Inl _ \<Rightarrow> [] | Inr s1 \<Rightarrow> sent cfg es s1)"

section \<open>Examples\<close>

definition example_config :: config where
  "example_config =
     \<lparr>channelDomain = ''c.org'', fanoutRealm = Some ''r'',
      requestExpirationTime = 60, sessionExpirationTime = 600,
      xmppHost = ''h'', xmppPort = 5222, xmppDomain = ''d'',
      xmppAnonymousDomain = None, xmppAnonymousHost = None, xmppAnonymousPort = None\<rparr>"

definition example_session :: session where
  "example_session = Session example_config (Some ''sid'') ''a@d'' 0"

definition example_reply :: "string \<Rightarrow> string \<Rightarrow> stanza" where
  "example_reply i t =
     \<lparr>st_name = ''iq'', st_id = Some i, st_type = Some t, st_from = Some ''c.org'',
      st_to = Some ''a@d'', st_payload = NoPayload\<rparr>"

definition example_notification :: "string \<Rightarrow> entry list \<Rightarrow> stanza" where
  "example_notification nodeId es =
     \<lparr>st_name = ''message'', st_id = None, st_type = None, st_from = Some ''c.org'',
      st_to = Some ''a@d'', st_payload = EventItems nodeId es\<rparr>"

definition example_server :: server where
  "example_server = \<lparr>anonymousSession = None, sessionCache = new_cache 600, srv_clock = 0\<rparr>"

definition anonymous_request :: request where
  "anonymous_request =
     \<lparr>header_session_id = None, req_user = None, req_password = None, req_session = None\<rparr>"

definition posts_example_node :: string where
  "posts_example_node = ''/user/a@d/posts''"

definition example_subscribing :: session where
  "example_subscribing = subscribe example_config ''q1'' posts_example_node 1 2 example_session"

definition example_key :: string where
  "example_key = ''c.org_/user/a@d/posts''"

definition example_entry :: entry where
  "example_entry = \<lparr>entry_id = ''e1'', entry_updated = 12345\<rparr>"

definition example_entry2 :: entry where
  "example_entry2 = \<lparr>entry_id = ''e2'', entry_updated = 67890\<rparr>"

definition example_anonymous :: session_obj where
  "example_anonymous = \<lparr>so_id = None, so_client = 7\<rparr>"

definition always_done :: "stanza \<Rightarrow> bool" where
  "always_done st = True"

definition example_query :: stanza where
  "example_query =
     \<lparr>st_name = ''iq'', st_id = None, st_type = Some ''get'', st_from = None, st_to = None,
      st_payload = NoPayload\<rparr>"

definition example_run :: "event list" where
  "example_run =
     [SendQueryEv ''q1'' example_query 5,
      StanzaEv (example_reply ''q1'' ''result''),
      StanzaEv (example_reply ''q1'' ''result''),
      TickEv 100]"

definition example_final :: session where
  "example_final =
     example_session
       \<lparr>clock := 100,
        effects := [Send (example_query\<lparr>st_from := Some ''a@d'', st_to := Some ''c.org'',
                            st_id := Some ''q1''\<rparr>),
                    ReplyCalled 5 (example_reply ''q1'' ''result'')]\<rparr>"

definition example_querying :: session where
  "example_querying = sendQuery example_config ''q1'' example_query (UserReply 5) example_session"

definition example_subscribed :: session where
  "example_subscribed = dispatchReply (example_reply ''q1'' ''result'') example_subscribing"

definition example_later :: session where
  "example_later =
     tick 5 (dispatchReply (example_reply ''q1'' ''error'') (tick 1000000 example_subscribed))"

definition example_subscribe_events :: "event list" where
  "example_subscribe_events =
     [SubscribeEv ''q1'' posts_example_node 1 2,
      StanzaEv (example_reply ''q1'' ''result''),
      StanzaEv (example_reply ''q1'' ''result'')]"

section \<open>Properties\<close>

subsection \<open>Effects, caches and reply handlers\<close>

lemma emit_fields [simp]:
  "effects (emit e s) = effects s @ [e]"
  "subs (emit e s) = subs s"
  "subObjs (emit e s) = subObjs s"
  "udObjs (emit e s) = udObjs s"
  "replyHandlers (emit e s) = replyHandlers s"
  "subsCache (emit e s) = subsCache s"
  "subsPresences (emit e s) = subsPresences s"
  "nextRef (emit e s) = nextRef s"
  "clock (emit e s) = clock s"
  "jid (emit e s) = jid s"
  "stanzaHandlers (emit e s) = stanzaHandlers s"
  "sess_id (emit e s) = sess_id s"
  by (simp_all add: emit_def)

lemma foldl_emit:
  "foldl (\<lambda>s' p. emit (f p) s') s ps = s\<lparr>effects := effects s @ map f ps\<rparr>"
  by (induction ps arbitrary: s) (simp_all add: emit_def)

lemma foldl_emit_onsub:
  "foldl (\<lambda>s' p. emit (OnSubCalled (onsub p) (userData (subObjs s' a))) s') s ps =
     s\<lparr>effects := effects s @ map (\<lambda>p. OnSubCalled (onsub p) (userData (subObjs s a))) ps\<rparr>"
  by (induction ps arbitrary: s) (simp_all add: emit_def)

lemma find_filter_neq: "find (\<lambda>e. fst e = k) (filter (\<lambda>e. fst e \<noteq> k) xs) = None"
  by (induction xs) simp_all

lemma find_app:
  "find P (xs @ ys) = (case find P xs of None \<Rightarrow> find P ys | Some x \<Rightarrow> Some x)"
  by (induction xs) simp_all

lemma cache_get_put_same:
  "cache_get now k (cache_put t k v c) = (if now < t + ttl c then Some v else None)"
  by (simp add: cache_get_def cache_put_def find_app find_filter_neq)

lemma cache_get_remove_same: "cache_get now k (cache_remove k c) = None"
  by (simp add: cache_get_def cache_remove_def find_filter_neq)

lemma subscribeReply_result:
  "st_type reply = Some ''result'' \<Longrightarrow>
   subscribeReply subkey a reply s =
     s\<lparr>subObjs := (subObjs s)(a := (subObjs s a)\<lparr>state := ''subscribed''\<rparr>),
       effects := effects s @ map (\<lambda>p. OnSubCalled (onsub p) (userData (subObjs s a)))
                                 (pending (subObjs s a))\<rparr>"
  by (simp add: subscribeReply_def Let_def foldl_emit_onsub)

lemma subscribeReply_failure:
  "st_type reply \<noteq> Some ''result'' \<Longrightarrow>
   subscribeReply subkey a reply s =
     s\<lparr>subs := (subs s)(subkey := None),
       effects := effects s @ map (\<lambda>p. OnErrorCalled (onerror p) ''failed'')
                                 (pending (subObjs s a))\<rparr>"
  by (simp add: subscribeReply_def Let_def foldl_emit)

lemma stanzaListener_iq:
  "st_name stanza = ''iq'' \<Longrightarrow> stanzaListener cfg stanza s = Inr (dispatchReply stanza s)"
  by (simp add: stanzaListener_def)

lemma dispatchReply_hit:
  "st_id stanza = Some i \<Longrightarrow> i \<noteq> [] \<Longrightarrow> cache_get (clock s) i (replyHandlers s) = Some h \<Longrightarrow>
   dispatchReply stanza s =
     callHandler h stanza (s\<lparr>replyHandlers := cache_remove i (replyHandlers s)\<rparr>)"
  by (simp add: dispatchReply_def)

lemma subscribe_absent:
  assumes "subs s (subkeyOf cfg nodeId) = None"
  shows "subscribe cfg q nodeId f g s =
     s\<lparr>subObjs := (subObjs s)
          (nextRef s := \<lparr>state = ''subscribing'', pending = [\<lparr>onsub = f, onerror = g\<rparr>],
                         userData = nextRef s\<rparr>),
       udObjs := (udObjs s)(nextRef s := empty_user_data),
       nextRef := Suc (nextRef s),
       subs := (subs s)(subkeyOf cfg nodeId \<mapsto> nextRef s),
       subsPresences := (if subsPresences s (channelDomain cfg) \<in> {None, Some 0}
                         then (subsPresences s)(channelDomain cfg \<mapsto> 1) else subsPresences s),
       replyHandlers := cache_put (clock s) q
                          (SubscribeReply (subkeyOf cfg nodeId) (nextRef s))
                          (replyHandlers s),
       effects := effects s
          @ (if subsPresences s (channelDomain cfg) \<in> {None, Some 0}
             then [Send (presence (jid s) (channelDomain cfg))] else [])
          @ [Send ((subscribeIq nodeId (jid s) True)
                     \<lparr>st_from := Some (jid s), st_to := Some (channelDomain cfg),
                      st_id := Some q\<rparr>)]\<rparr>"
  using assms
  by (auto simp add: subscribe_def sendQuery_def emit_def Let_def split: option.splits)

lemma subscribe_subscribing:
  assumes "subs s (subkeyOf cfg nodeId) = Some a"
      and "state (subObjs s a) = ''subscribing''"
  shows "subscribe cfg q nodeId f g s =
     s\<lparr>subObjs := (subObjs s)
          (a := (subObjs s a)\<lparr>pending := pending (subObjs s a) @ [\<lparr>onsub = f, onerror = g\<rparr>]\<rparr>)\<rparr>"
  using assms by (simp add: subscribe_def Let_def)

lemma count_subscribe_requests_absent:
  assumes "subs s (subkeyOf cfg nodeId) = None"
  shows "length (filter (isSubscribeRequest nodeId) (effects (subscribe cfg q nodeId f g s))) =
         Suc (length (filter (isSubscribeRequest nodeId) (effects s)))"
  by (simp add: subscribe_absent [OF assms] isSubscribeRequest_def presence_def subscribeIq_def)

subsection \<open>Subscribing twice before the reply\<close>

text \<open>
  C2. A topic has no entry. After a first \<open>subscribe\<close> the entry is in state
  subscribing; a second \<open>subscribe\<close> for the topic changes nothing but the pending
  list of that entry, to which it appends its pair of callbacks: it sends nothing,
  so the two calls issue exactly one subscribe request. When the reply to that
  request arrives, both callers are called: with the user data object on success,
  with \<open>failed\<close> otherwise.
\<close>

theorem subscribe_twice_while_subscribing:
  assumes absent: "subs s (subkeyOf cfg nodeId) = None"
      and q1: "q1 \<noteq> []"
      and live: "0 < ttl (replyHandlers s)"
      and reply: "st_name reply = ''iq''" "st_id reply = Some q1"
  shows "(let s1 = subscribe cfg q1 nodeId f1 g1 s;
              s2 = subscribe cfg q2 nodeId f2 g2 s1;
              a = nextRef s
          in subs s1 (subkeyOf cfg nodeId) = Some a
           \<and> state (subObjs s1 a) = ''subscribing''
           \<and> s2 = s1\<lparr>subObjs := (subObjs s1)
                      (a := (subObjs s1 a)\<lparr>pending :=
                         [\<lparr>onsub = f1, onerror = g1\<rparr>, \<lparr>onsub = f2, onerror = g2\<rparr>]\<rparr>)\<rparr>
           \<and> effects s2 = effects s1
           \<and> length (filter (isSubscribeRequest nodeId) (effects s2)) =
               Suc (length (filter (isSubscribeRequest nodeId) (effects s)))
           \<and> (\<exists>s3. stanzaListener cfg reply s2 = Inr s3
                 \<and> effects s3 = effects s2 @
                     (if st_type reply = Some ''result''
                      then [OnSubCalled f1 a, OnSubCalled f2 a]
                      else [OnErrorCalled g1 ''failed'', OnErrorCalled g2 ''failed''])))"
proof -
  let ?subkey = "subkeyOf cfg nodeId"
  define s1 where "s1 = subscribe cfg q1 nodeId f1 g1 s"
  define s2 where "s2 = subscribe cfg q2 nodeId f2 g2 s1"
  define a where "a = nextRef s"
  have s1_eq: "subs s1 ?subkey = Some a" "subObjs s1 a =
      \<lparr>state = ''subscribing'', pending = [\<lparr>onsub = f1, onerror = g1\<rparr>], userData = a\<rparr>"
    "replyHandlers s1 = cache_put (clock s) q1 (SubscribeReply ?subkey a) (replyHandlers s)"
    "clock s1 = clock s"
    by (simp_all add: s1_def a_def subscribe_absent [OF absent])
  have s2_eq: "s2 = s1\<lparr>subObjs := (subObjs s1)
       (a := (subObjs s1 a)\<lparr>pending := pending (subObjs s1 a) @ [\<lparr>onsub = f2, onerror = g2\<rparr>]\<rparr>)\<rparr>"
    unfolding s2_def
    by (rule subscribe_subscribing [OF s1_eq(1)]) (simp add: s1_eq(2))
  have cnt: "length (filter (isSubscribeRequest nodeId) (effects s1)) =
             Suc (length (filter (isSubscribeRequest nodeId) (effects s)))"
    unfolding s1_def by (rule count_subscribe_requests_absent [OF absent])
  have get: "cache_get (clock s2) q1 (replyHandlers s2) = Some (SubscribeReply ?subkey a)"
    using live by (simp add: s2_eq s1_eq cache_get_put_same)
  have "stanzaListener cfg reply s2 =
          Inr (callHandler (SubscribeReply ?subkey a) reply
                 (s2\<lparr>replyHandlers := cache_remove q1 (replyHandlers s2)\<rparr>))"
    by (simp add: stanzaListener_iq reply dispatchReply_hit [OF reply(2) q1 get])
  moreover have "effects (callHandler (SubscribeReply ?subkey a) reply
                 (s2\<lparr>replyHandlers := cache_remove q1 (replyHandlers s2)\<rparr>)) =
        effects s2 @ (if st_type reply = Some ''result''
                      then [OnSubCalled f1 a, OnSubCalled f2 a]
                      else [OnErrorCalled g1 ''failed'', OnErrorCalled g2 ''failed''])"
    by (simp add: callHandler_def subscribeReply_result subscribeReply_failure s2_eq s1_eq)
  ultimately have out: "\<exists>s3. stanzaListener cfg reply s2 = Inr s3
                 \<and> effects s3 = effects s2 @
                     (if st_type reply = Some ''result''
                      then [OnSubCalled f1 a, OnSubCalled f2 a]
                      else [OnErrorCalled g1 ''failed'', OnErrorCalled g2 ''failed''])"
    by simp
  have "s2 = s1\<lparr>subObjs := (subObjs s1)
                      (a := (subObjs s1 a)\<lparr>pending :=
                         [\<lparr>onsub = f1, onerror = g1\<rparr>, \<lparr>onsub = f2, onerror = g2\<rparr>]\<rparr>)\<rparr>"
    by (simp add: s2_eq s1_eq)
  moreover have "effects s2 = effects s1" by (simp add: s2_eq)
  moreover have "state (subObjs s1 a) = ''subscribing''" by (simp add: s1_eq)
  ultimately show ?thesis
    using s1_eq(1) cnt out
    unfolding Let_def s1_def [symmetric] s2_def [symmetric] a_def [symmetric]
    by simp
qed

lemma callHandler_frame [simp]:
  "udObjs (callHandler h st s) = udObjs s"
  "clock (callHandler h st s) = clock s"
  "replyHandlers (callHandler h st s) = replyHandlers s"
  "nextRef (callHandler h st s) = nextRef s"
  "subsCache (callHandler h st s) = subsCache s"
  "jid (callHandler h st s) = jid s"
  "stanzaHandlers (callHandler h st s) = stanzaHandlers s"
  "subsPresences (callHandler h st s) = subsPresences s"
  by (cases h; cases "st_type st = Some ''result''";
      simp add: callHandler_def subscribeReply_result subscribeReply_failure)+

lemma callHandler_posts [simp]: "posts (effects (callHandler h st s)) = posts (effects s)"
  by (cases h; cases "st_type st = Some ''result''")
     (simp_all add: callHandler_def subscribeReply_result subscribeReply_failure posts_def
        posted_def o_def)

lemma callHandler_userData [simp]:
  "userData (subObjs (callHandler h st s) a) = userData (subObjs s a)"
  by (cases h; cases "st_type st = Some ''result''")
     (simp_all add: callHandler_def subscribeReply_result subscribeReply_failure)

lemma dispatchReply_frame [simp]:
  "udObjs (dispatchReply st s) = udObjs s"
  "clock (dispatchReply st s) = clock s"
  "nextRef (dispatchReply st s) = nextRef s"
  "subsCache (dispatchReply st s) = subsCache s"
  "jid (dispatchReply st s) = jid s"
  "posts (effects (dispatchReply st s)) = posts (effects s)"
  "userData (subObjs (dispatchReply st s) a) = userData (subObjs s a)"
  by (simp_all add: dispatchReply_def split: option.splits)

lemma fanoutItems_nonempty:
  assumes "items (udObjs s u) = Some its" and "its \<noteq> []"
  shows "\<exists>s'. fanoutItems cfg nodeId entries u s = Inr s'
     \<and> udObjs s' = (udObjs s)(u := (udObjs s u)\<lparr>lastPublishedId :=
           Some (item_id (last its) @ ''_'' @ show_int (item_time (last its)))\<rparr>)
     \<and> map (\<lambda>i. (fo_id i, fo_prev_id i)) (posts (effects s')) =
         map (\<lambda>i. (fo_id i, fo_prev_id i)) (posts (effects s)) @
         replicate 2 (Some (item_id (last its) @ ''_'' @ show_int (item_time (last its))),
                      if truthy (lastPublishedId (udObjs s u)) then lastPublishedId (udObjs s u)
                      else None)
     \<and> subs s' = subs s \<and> subObjs s' = subObjs s \<and> replyHandlers s' = replyHandlers s
     \<and> clock s' = clock s \<and> subsCache s' = subsCache s \<and> nextRef s' = nextRef s"
  using assms
  by (simp add: fanoutItems_def fanoutPublish_def Let_def posts_def posted_def truthy_def
        numeral_2_eq_2)

lemma publishItems_fanout:
  assumes sub: "subs s (subkeyOf cfg nodeId) = Some a"
      and fan: "truthy (fanoutRealm cfg)"
      and es: "entries \<noteq> []"
  shows "\<exists>s'. publishItems cfg stanza nodeId entries s = Inr s'
     \<and> lastPublishedId (udObjs s' (userData (subObjs s a))) = Some (emissionId (last entries))
     \<and> items (udObjs s' (userData (subObjs s a))) =
         Some ((case items (udObjs s (userData (subObjs s a))) of None \<Rightarrow> [] | Some xs \<Rightarrow> xs)
               @ map mkItem entries)
     \<and> map (\<lambda>i. (fo_id i, fo_prev_id i)) (posts (effects s')) =
         map (\<lambda>i. (fo_id i, fo_prev_id i)) (posts (effects s)) @
         replicate 2 (Some (emissionId (last entries)),
            if items (udObjs s (userData (subObjs s a))) \<noteq> None
               \<and> truthy (lastPublishedId (udObjs s (userData (subObjs s a))))
            then lastPublishedId (udObjs s (userData (subObjs s a))) else None)
     \<and> subs s' = subs s \<and> subObjs s' = subObjs s \<and> replyHandlers s' = replyHandlers s
     \<and> clock s' = clock s \<and> subsCache s' = subsCache s \<and> nextRef s' = nextRef s"
proof -
  let ?u = "userData (subObjs s a)"
  let ?ud1 = "(if items (udObjs s ?u) = None
               then (udObjs s ?u)\<lparr>items := Some [], ud_from := st_from stanza,
                        prevId := None, lastPublishedId := None\<rparr>
               else udObjs s ?u)"
  let ?its = "(case items ?ud1 of None \<Rightarrow> [] | Some xs \<Rightarrow> xs) @ map mkItem entries"
  let ?s1 = "s\<lparr>udObjs := (udObjs s)(?u := ?ud1\<lparr>items := Some ?its\<rparr>)\<rparr>"
  have eq: "publishItems cfg stanza nodeId entries s = fanoutItems cfg nodeId entries ?u ?s1"
    using sub fan by (simp add: publishItems_def Let_def)
  have its: "items (udObjs ?s1 ?u) = Some ?its" "?its \<noteq> []" using es by simp_all
  have last: "last ?its = mkItem (last entries)" using es by (simp add: last_map)
  from fanoutItems_nonempty [OF its, of cfg nodeId entries]
  obtain s' where s': "fanoutItems cfg nodeId entries ?u ?s1 = Inr s'"
     "udObjs s' = (udObjs ?s1)(?u := (udObjs ?s1 ?u)\<lparr>lastPublishedId :=
           Some (item_id (last ?its) @ ''_'' @ show_int (item_time (last ?its)))\<rparr>)"
     "map (\<lambda>i. (fo_id i, fo_prev_id i)) (posts (effects s')) =
         map (\<lambda>i. (fo_id i, fo_prev_id i)) (posts (effects ?s1)) @
         replicate 2 (Some (item_id (last ?its) @ ''_'' @ show_int (item_time (last ?its))),
                      if truthy (lastPublishedId (udObjs ?s1 ?u)) then lastPublishedId (udObjs ?s1 ?u)
                      else None)"
     "subs s' = subs ?s1" "subObjs s' = subObjs ?s1" "replyHandlers s' = replyHandlers ?s1"
     "clock s' = clock ?s1" "subsCache s' = subsCache ?s1" "nextRef s' = nextRef ?s1"
    by blast
  have id: "item_id (last ?its) @ ''_'' @ show_int (item_time (last ?its)) = emissionId (last entries)"
    unfolding last by (simp add: mkItem_def emissionId_def)
  show ?thesis
    apply (rule exI [of _ s'])
    apply (simp only: eq s' id)
    apply (auto simp add: truthy_def split: option.splits)
    done
qed

lemma example_fields [simp]:
  "channelDomain example_config = ''c.org''"
  "fanoutRealm example_config = Some ''r''"
  "subs example_session = Map.empty"
  "subsPresences example_session = Map.empty"
  "nextRef example_session = 0"
  "clock example_session = 0"
  "effects example_session = []"
  "jid example_session = ''a@d''"
  "replyHandlers example_session = new_cache 60"
  "stanzaHandlers example_session = []"
  "st_name (example_reply i t) = ''iq''"
  "st_id (example_reply i t) = Some i"
  "st_type (example_reply i t) = Some t"
  "st_name (example_notification n es) = ''message''"
  "st_payload (example_notification n es) = EventItems n es"
  "st_id (example_notification n es) = None"
  by (simp_all add: example_config_def example_session_def Session_def example_reply_def
        example_notification_def)

lemma new_cache_fields [simp]: "ttl (new_cache t) = t" "centries (new_cache t) = []"
  by (simp_all add: new_cache_def)

theorem subscribe_twice_while_subscribing_witness:
  "subs example_session (subkeyOf example_config posts_example_node) = None
   \<and> ''q1'' \<noteq> [] \<and> 0 < ttl (replyHandlers example_session)
   \<and> st_name (example_reply ''q1'' ''result'') = ''iq''
   \<and> st_id (example_reply ''q1'' ''result'') = Some ''q1''
   \<and> (\<exists>s3. stanzaListener example_config (example_reply ''q1'' ''result'')
              (subscribe example_config ''q2'' posts_example_node 3 4
                (subscribe example_config ''q1'' posts_example_node 1 2 example_session)) = Inr s3
          \<and> effects s3 =
              effects (subscribe example_config ''q1'' posts_example_node 1 2 example_session)
              @ [OnSubCalled 1 0, OnSubCalled 3 0])"
proof -
  have h: "subs example_session (subkeyOf example_config posts_example_node) = None"
    "''q1'' \<noteq> []" "0 < ttl (replyHandlers example_session)"
    "st_name (example_reply ''q1'' ''result'') = ''iq''"
    "st_id (example_reply ''q1'' ''result'') = Some ''q1''"
    by simp_all
  note t = subscribe_twice_while_subscribing [OF h, where ?f1.0 = 1 and ?g1.0 = 2
        and ?q2.0 = "''q2''" and ?f2.0 = 3 and ?g2.0 = 4, unfolded Let_def]
  from t have e: "effects (subscribe example_config ''q2'' posts_example_node 3 4
                (subscribe example_config ''q1'' posts_example_node 1 2 example_session)) =
        effects (subscribe example_config ''q1'' posts_example_node 1 2 example_session)"
    by blast
  from t obtain s3 where "stanzaListener example_config (example_reply ''q1'' ''result'')
              (subscribe example_config ''q2'' posts_example_node 3 4
                (subscribe example_config ''q1'' posts_example_node 1 2 example_session)) = Inr s3"
     "effects s3 = effects (subscribe example_config ''q2'' posts_example_node 3 4
                (subscribe example_config ''q1'' posts_example_node 1 2 example_session)) @
                     (if st_type (example_reply ''q1'' ''result'') = Some ''result''
                      then [OnSubCalled 1 (nextRef example_session), OnSubCalled 3 (nextRef example_session)]
                      else [OnErrorCalled 2 ''failed'', OnErrorCalled 4 ''failed''])"
    by blast
  with e have "\<exists>s3. stanzaListener example_config (example_reply ''q1'' ''result'')
              (subscribe example_config ''q2'' posts_example_node 3 4
                (subscribe example_config ''q1'' posts_example_node 1 2 example_session)) = Inr s3
          \<and> effects s3 =
              effects (subscribe example_config ''q1'' posts_example_node 1 2 example_session)
              @ [OnSubCalled 1 0, OnSubCalled 3 0]"
    by simp
  with h show ?thesis by blast
qed

lemma stanzaListener_reply:
  assumes "st_name reply = ''iq''" and "st_id reply = Some q" and "q \<noteq> []"
      and "cache_get (clock s) q (replyHandlers s) = Some h"
  shows "stanzaListener cfg reply s =
     Inr (callHandler h reply (s\<lparr>replyHandlers := cache_remove q (replyHandlers s)\<rparr>))"
  using assms by (simp add: stanzaListener_iq dispatchReply_hit)

lemma stanzaListener_items:
  assumes "st_name m = ''message''" and "st_payload m = EventItems nodeId entries"
  shows "stanzaListener cfg m s =
     (case publishItems cfg m nodeId entries s of
        Inl e \<Rightarrow> Inl e | Inr s1 \<Rightarrow> Inr (dispatchReply m s1))"
  using assms by (simp add: stanzaListener_def)

lemma publishItems_items:
  assumes sub: "subs s (subkeyOf cfg nodeId) = Some a"
      and es: "entries \<noteq> []"
  shows "\<exists>s'. publishItems cfg stanza nodeId entries s = Inr s'
     \<and> items (udObjs s' (userData (subObjs s a))) =
         Some ((case items (udObjs s (userData (subObjs s a))) of None \<Rightarrow> [] | Some xs \<Rightarrow> xs)
               @ map mkItem entries)"
proof (cases "truthy (fanoutRealm cfg)")
  case True
  from publishItems_fanout [OF sub True es] show ?thesis by blast
next
  case False
  with sub show ?thesis by (simp add: publishItems_def Let_def)
qed

subsection \<open>The reply to a subscribe request\<close>

text \<open>
  C3, as amended. The reply handler of a subscribe request is stored under \<open>q\<close> and
  the entry of the topic is the subscription object it closes over. When a reply of
  type result arrives, the entry stays in place and its state becomes subscribed;
  every callback of the pending list is called, in order, with the one user data
  object of the entry; the pending list is left as it was (it is not cleared).
  A later notification for the topic that carries entries appends their items to
  that same user data object.
\<close>

theorem subscribe_success_reply:
  assumes handler: "cache_get (clock s) q (replyHandlers s) = Some (SubscribeReply subkey a)"
      and entry: "subs s subkey = Some a"
      and q: "q \<noteq> []"
      and reply: "st_name reply = ''iq''" "st_id reply = Some q" "st_type reply = Some ''result''"
  shows "\<exists>s'. stanzaListener cfg reply s = Inr s'
     \<and> subs s' subkey = Some a
     \<and> state (subObjs s' a) = ''subscribed''
     \<and> userData (subObjs s' a) = userData (subObjs s a)
     \<and> effects s' = effects s @
          map (\<lambda>p. OnSubCalled (onsub p) (userData (subObjs s a))) (pending (subObjs s a))
     \<and> pending (subObjs s' a) = pending (subObjs s a)
     \<and> (\<forall>m nodeId entries.
           st_name m = ''message'' \<and> st_payload m = EventItems nodeId entries
           \<and> subkey = subkeyOf cfg nodeId \<and> entries \<noteq> [] \<longrightarrow>
           (\<exists>s''. stanzaListener cfg m s' = Inr s''
              \<and> items (udObjs s'' (userData (subObjs s a))) =
                  Some ((case items (udObjs s' (userData (subObjs s a))) of
                           None \<Rightarrow> [] | Some xs \<Rightarrow> xs) @ map mkItem entries)))"
proof -
  let ?s0 = "s\<lparr>replyHandlers := cache_remove q (replyHandlers s)\<rparr>"
  let ?s' = "callHandler (SubscribeReply subkey a) reply ?s0"
  have run: "stanzaListener cfg reply s = Inr ?s'"
    by (rule stanzaListener_reply [OF reply(1) reply(2) q handler])
  have s': "?s' = ?s0\<lparr>subObjs := (subObjs ?s0)(a := (subObjs ?s0 a)\<lparr>state := ''subscribed''\<rparr>),
       effects := effects ?s0 @ map (\<lambda>p. OnSubCalled (onsub p) (userData (subObjs ?s0 a)))
                                 (pending (subObjs ?s0 a))\<rparr>"
    by (simp add: callHandler_def subscribeReply_result [OF reply(3)])
  have ent': "subs ?s' subkey = Some a" by (simp add: s' entry)
  have later: "\<exists>s''. stanzaListener cfg m ?s' = Inr s''
              \<and> items (udObjs s'' (userData (subObjs s a))) =
                  Some ((case items (udObjs ?s' (userData (subObjs s a))) of
                           None \<Rightarrow> [] | Some xs \<Rightarrow> xs) @ map mkItem entries)"
    if m: "st_name m = ''message''" "st_payload m = EventItems nodeId entries"
       "subkey = subkeyOf cfg nodeId" "entries \<noteq> []" for m nodeId entries
  proof -
    have sub': "subs ?s' (subkeyOf cfg nodeId) = Some a"
      using ent' m(3) by simp
    have ud: "userData (subObjs ?s' a) = userData (subObjs s a)" by (simp add: s')
    from publishItems_items [OF sub' m(4), of m]
    obtain s1 where s1: "publishItems cfg m nodeId entries ?s' = Inr s1"
      "items (udObjs s1 (userData (subObjs s a))) =
         Some ((case items (udObjs ?s' (userData (subObjs s a))) of None \<Rightarrow> [] | Some xs \<Rightarrow> xs)
               @ map mkItem entries)"
      unfolding ud by blast
    show ?thesis
      by (simp add: stanzaListener_items [OF m(1) m(2)] s1)
  qed
  show ?thesis
    apply (rule exI [of _ ?s'])
    apply (intro conjI)
          apply (rule run)
         apply (rule ent')
        apply (simp add: s')
       apply (simp add: s')
      apply (simp add: s')
     apply (simp add: s')
    using later apply blast
    done
qed

lemma example_subscribing_fields:
  "subs example_subscribing = [example_key \<mapsto> 0]"
  "subObjs example_subscribing 0 =
     \<lparr>state = ''subscribing'', pending = [\<lparr>onsub = 1, onerror = 2\<rparr>], userData = 0\<rparr>"
  "udObjs example_subscribing 0 = empty_user_data"
  "nextRef example_subscribing = 1"
  "clock example_subscribing = 0"
  "subsPresences example_subscribing = [''c.org'' \<mapsto> 1]"
  "replyHandlers example_subscribing =
     cache_put 0 ''q1'' (SubscribeReply example_key 0) (new_cache 60)"
  "effects example_subscribing =
     [Send (presence ''a@d'' ''c.org''),
      Send ((subscribeIq posts_example_node ''a@d'' True)
              \<lparr>st_from := Some ''a@d'', st_to := Some ''c.org'', st_id := Some ''q1''\<rparr>)]"
proof -
  have absent: "subs example_session (subkeyOf example_config posts_example_node) = None"
    by simp
  note eq = subscribe_absent [OF absent, of "''q1''" 1 2, folded example_subscribing_def]
  show "subs example_subscribing = [example_key \<mapsto> 0]"
    and "subObjs example_subscribing 0 =
     \<lparr>state = ''subscribing'', pending = [\<lparr>onsub = 1, onerror = 2\<rparr>], userData = 0\<rparr>"
    and "udObjs example_subscribing 0 = empty_user_data"
    and "nextRef example_subscribing = 1"
    and "clock example_subscribing = 0"
    and "subsPresences example_subscribing = [''c.org'' \<mapsto> 1]"
    and "replyHandlers example_subscribing =
     cache_put 0 ''q1'' (SubscribeReply example_key 0) (new_cache 60)"
    and "effects example_subscribing =
      [Send (presence ''a@d'' ''c.org''),
       Send ((subscribeIq posts_example_node ''a@d'' True)
              \<lparr>st_from := Some ''a@d'', st_to := Some ''c.org'', st_id := Some ''q1''\<rparr>)]"
    by (simp_all add: eq example_key_def posts_example_node_def subkeyOf_def)
qed

text \<open>
  The claim as stated has the pending list cleared after the callbacks; the source
  only sets the state and calls them. After one \<open>subscribe\<close> and a successful
  reply the pending list still holds the caller.
\<close>

theorem pending_kept_after_success_counterexample:
  "stanzaListener example_config (example_reply ''q1'' ''result'') example_subscribing =
     Inr (dispatchReply (example_reply ''q1'' ''result'') example_subscribing)
   \<and> state (subObjs (dispatchReply (example_reply ''q1'' ''result'') example_subscribing) 0) =
       ''subscribed''
   \<and> pending (subObjs (dispatchReply (example_reply ''q1'' ''result'') example_subscribing) 0) =
       [\<lparr>onsub = 1, onerror = 2\<rparr>]"
  by (simp add: stanzaListener_iq dispatchReply_def example_subscribing_fields
        cache_get_put_same callHandler_def subscribeReply_result)

theorem subscribe_success_reply_witness:
  "cache_get (clock example_subscribing) ''q1'' (replyHandlers example_subscribing) =
     Some (SubscribeReply example_key 0)
   \<and> subs example_subscribing example_key = Some 0
   \<and> ''q1'' \<noteq> []
   \<and> st_name (example_reply ''q1'' ''result'') = ''iq''
   \<and> st_id (example_reply ''q1'' ''result'') = Some ''q1''
   \<and> st_type (example_reply ''q1'' ''result'') = Some ''result''
   \<and> (\<exists>s'. stanzaListener example_config (example_reply ''q1'' ''result'') example_subscribing
              = Inr s'
         \<and> state (subObjs s' 0) = ''subscribed''
         \<and> effects s' = effects example_subscribing @ [OnSubCalled 1 0]
         \<and> (\<exists>s''. stanzaListener example_config
                      (example_notification posts_example_node [example_entry]) s' = Inr s''
               \<and> items (udObjs s'' 0) = Some [mkItem example_entry]))"
proof -
  have h: "cache_get (clock example_subscribing) ''q1'' (replyHandlers example_subscribing) =
     Some (SubscribeReply example_key 0)"
    "subs example_subscribing example_key = Some 0"
    "''q1'' \<noteq> []"
    "st_name (example_reply ''q1'' ''result'') = ''iq''"
    "st_id (example_reply ''q1'' ''result'') = Some ''q1''"
    "st_type (example_reply ''q1'' ''result'') = Some ''result''"
    by (simp_all add: example_subscribing_fields cache_get_put_same)
  from subscribe_success_reply [OF h, of example_config]
  obtain s' where s':
    "stanzaListener example_config (example_reply ''q1'' ''result'') example_subscribing = Inr s'"
    "state (subObjs s' 0) = ''subscribed''"
    "effects s' = effects example_subscribing @
          map (\<lambda>p. OnSubCalled (onsub p) (userData (subObjs example_subscribing 0)))
            (pending (subObjs example_subscribing 0))"
    "\<forall>m nodeId entries.
           st_name m = ''message'' \<and> st_payload m = EventItems nodeId entries
           \<and> example_key = subkeyOf example_config nodeId \<and> entries \<noteq> [] \<longrightarrow>
           (\<exists>s''. stanzaListener example_config m s' = Inr s''
              \<and> items (udObjs s'' (userData (subObjs example_subscribing 0))) =
                  Some ((case items (udObjs s' (userData (subObjs example_subscribing 0))) of
                           None \<Rightarrow> [] | Some xs \<Rightarrow> xs) @ map mkItem entries))"
    by blast
  have ud: "udObjs s' = udObjs example_subscribing"
    using s'(1) by (simp add: stanzaListener_iq) auto
  have "\<exists>s''. stanzaListener example_config
                      (example_notification posts_example_node [example_entry]) s' = Inr s''
               \<and> items (udObjs s'' 0) = Some [mkItem example_entry]"
    using s'(4) [rule_format, of "example_notification posts_example_node [example_entry]"
        posts_example_node "[example_entry]"]
    by (simp add: example_subscribing_fields example_key_def posts_example_node_def ud
          empty_user_data_def subkeyOf_def)
  with s'(1,2,3) h show ?thesis
    by (simp add: example_subscribing_fields)
qed

subsection \<open>A failed subscribe request\<close>

text \<open>
  C4. The reply handler of the subscribe request for a topic is stored under \<open>q\<close>.
  When a reply whose type is not result arrives, the listener removes the entry of
  the topic and then calls the error callback of every pending caller with
  \<open>failed\<close>: the callbacks run from a state without the entry, and the entry is
  absent after each of them. Afterwards a \<open>subscribe\<close> for the topic makes a new
  subscription object in state subscribing, with the caller as its only pending
  one and empty user data, and sends one more subscribe request.
\<close>

theorem subscribe_failure_reply:
  assumes handler: "cache_get (clock s) q (replyHandlers s) = Some (SubscribeReply subkey a)"
      and key: "subkey = subkeyOf cfg nodeId"
      and alloc: "a < nextRef s"
      and q: "q \<noteq> []"
      and reply: "st_name reply = ''iq''" "st_id reply = Some q" "st_type reply \<noteq> Some ''result''"
  shows "\<exists>s'. stanzaListener cfg reply s = Inr s'
     \<and> s' = foldl (\<lambda>t p. emit (OnErrorCalled (onerror p) ''failed'') t)
              (s\<lparr>replyHandlers := cache_remove q (replyHandlers s),
                 subs := (subs s)(subkey := None)\<rparr>)
              (pending (subObjs s a))
     \<and> (\<forall>n. subs (foldl (\<lambda>t p. emit (OnErrorCalled (onerror p) ''failed'') t)
                    (s\<lparr>replyHandlers := cache_remove q (replyHandlers s),
                       subs := (subs s)(subkey := None)\<rparr>)
                    (take n (pending (subObjs s a)))) subkey = None)
     \<and> effects s' = effects s @
          map (\<lambda>p. OnErrorCalled (onerror p) ''failed'') (pending (subObjs s a))
     \<and> subs s' subkey = None
     \<and> (let s2 = subscribe cfg q2 nodeId f g s'
         in subs s2 subkey = Some (nextRef s') \<and> nextRef s' \<noteq> a
          \<and> subObjs s2 (nextRef s') =
              \<lparr>state = ''subscribing'', pending = [\<lparr>onsub = f, onerror = g\<rparr>],
               userData = nextRef s'\<rparr>
          \<and> udObjs s2 (nextRef s') = empty_user_data
          \<and> replyHandlers s2 =
              cache_put (clock s') q2 (SubscribeReply subkey (nextRef s')) (replyHandlers s')
          \<and> length (filter (isSubscribeRequest nodeId) (effects s2)) =
              Suc (length (filter (isSubscribeRequest nodeId) (effects s'))))"
proof -
  note handler = handler [unfolded key]
  let ?s0 = "s\<lparr>replyHandlers := cache_remove q (replyHandlers s)\<rparr>"
  let ?s1 = "s\<lparr>replyHandlers := cache_remove q (replyHandlers s), subs := (subs s)((subkeyOf cfg nodeId) := None)\<rparr>"
  let ?cb = "\<lambda>t p. emit (OnErrorCalled (onerror p) ''failed'') t"
  let ?s' = "foldl ?cb ?s1 (pending (subObjs s a))"
  have "stanzaListener cfg reply s = Inr (callHandler (SubscribeReply (subkeyOf cfg nodeId) a) reply ?s0)"
    by (rule stanzaListener_reply [OF reply(1) reply(2) q handler])
  moreover have "callHandler (SubscribeReply (subkeyOf cfg nodeId) a) reply ?s0 = ?s'"
    using reply(3) by (simp add: callHandler_def subscribeReply_def Let_def)
  ultimately have run: "stanzaListener cfg reply s = Inr ?s'" by simp
  have fold: "foldl ?cb ?s1 ps = ?s1\<lparr>effects := effects ?s1 @
      map (\<lambda>p. OnErrorCalled (onerror p) ''failed'') ps\<rparr>" for ps
    by (rule foldl_emit)
  have absent: "subs ?s' ((subkeyOf cfg nodeId)) = None"
    by (simp add: fold)
  have nxt: "nextRef ?s' = nextRef s" by (simp add: fold)
  note sub2 = subscribe_absent [OF absent, of q2 f g]
  have again: "(let s2 = subscribe cfg q2 nodeId f g ?s'
         in subs s2 (subkeyOf cfg nodeId) = Some (nextRef ?s') \<and> nextRef ?s' \<noteq> a
          \<and> subObjs s2 (nextRef ?s') =
              \<lparr>state = ''subscribing'', pending = [\<lparr>onsub = f, onerror = g\<rparr>],
               userData = nextRef ?s'\<rparr>
          \<and> udObjs s2 (nextRef ?s') = empty_user_data
          \<and> replyHandlers s2 =
              cache_put (clock ?s') q2 (SubscribeReply (subkeyOf cfg nodeId) (nextRef ?s')) (replyHandlers ?s')
          \<and> length (filter (isSubscribeRequest nodeId) (effects s2)) =
              Suc (length (filter (isSubscribeRequest nodeId) (effects ?s'))))"
    unfolding Let_def
    apply (intro conjI)
         apply (simp add: sub2)
        using alloc apply (simp add: nxt)
       apply (simp add: sub2)
      apply (simp add: sub2)
     apply (simp add: sub2)
    apply (rule count_subscribe_requests_absent [OF absent])
    done
  show ?thesis
    unfolding key
    apply (rule exI [of _ ?s'])
    apply (intro conjI)
         apply (rule run)
        apply (rule refl)
       apply (simp add: fold)
      apply (simp add: fold)
     apply (simp add: fold)
    apply (rule again)
    done
qed

lemma example_subkey [simp]: "subkeyOf example_config posts_example_node = example_key"
  by (simp add: subkeyOf_def example_key_def posts_example_node_def)

theorem subscribe_failure_reply_witness:
  "cache_get (clock example_subscribing) ''q1'' (replyHandlers example_subscribing) =
     Some (SubscribeReply example_key 0)
   \<and> example_key = subkeyOf example_config posts_example_node
   \<and> 0 < nextRef example_subscribing
   \<and> ''q1'' \<noteq> []
   \<and> st_name (example_reply ''q1'' ''error'') = ''iq''
   \<and> st_id (example_reply ''q1'' ''error'') = Some ''q1''
   \<and> st_type (example_reply ''q1'' ''error'') \<noteq> Some ''result''
   \<and> (\<exists>s'. stanzaListener example_config (example_reply ''q1'' ''error'') example_subscribing
              = Inr s'
         \<and> effects s' = effects example_subscribing @ [OnErrorCalled 2 ''failed'']
         \<and> subs s' example_key = None
         \<and> subs (subscribe example_config ''q2'' posts_example_node 5 6 s') example_key = Some 1)"
proof -
  have h: "cache_get (clock example_subscribing) ''q1'' (replyHandlers example_subscribing) =
     Some (SubscribeReply example_key 0)"
    "example_key = subkeyOf example_config posts_example_node"
    "0 < nextRef example_subscribing"
    "''q1'' \<noteq> []"
    "st_name (example_reply ''q1'' ''error'') = ''iq''"
    "st_id (example_reply ''q1'' ''error'') = Some ''q1''"
    "st_type (example_reply ''q1'' ''error'') \<noteq> Some ''result''"
    by (simp_all add: example_subscribing_fields cache_get_put_same)
  from subscribe_failure_reply [OF h, where ?q2.0 = "''q2''" and f = 5 and g = 6,
      unfolded Let_def]
  obtain s' where s':
    "stanzaListener example_config (example_reply ''q1'' ''error'') example_subscribing = Inr s'"
    "s' = foldl (\<lambda>t p. emit (OnErrorCalled (onerror p) ''failed'') t)
              (example_subscribing\<lparr>replyHandlers := cache_remove ''q1'' (replyHandlers example_subscribing),
                 subs := (subs example_subscribing)(example_key := None)\<rparr>)
              (pending (subObjs example_subscribing 0))"
    "effects s' = effects example_subscribing @
          map (\<lambda>p. OnErrorCalled (onerror p) ''failed'') (pending (subObjs example_subscribing 0))"
    "subs s' example_key = None"
    "subs (subscribe example_config ''q2'' posts_example_node 5 6 s') example_key = Some (nextRef s')"
    by blast
  have "nextRef s' = 1"
    by (simp add: s'(2) example_subscribing_fields)
  with s'(1,3,4,5) h show ?thesis
    by (simp add: example_subscribing_fields)
qed

subsection \<open>The presence count\<close>

text \<open>
  C5, at an input where the code departs from the claim. A first \<open>subscribe\<close> stores
  the count 1 for the domain and sends the presence. A second \<open>subscribe\<close>, for
  another topic of the same domain, creates an entry too and sends no presence,
  but the stored count is still 1: \<open>++refs\<close> increments the local variable and the
  result is never written back to \<open>_subsPresences\<close>.
\<close>

theorem presence_count_not_written_back:
  "subsPresences example_subscribing ''c.org'' = Some 1
   \<and> filter isPresence (effects example_subscribing) = [Send (presence ''a@d'' ''c.org'')]
   \<and> subs example_subscribing (subkeyOf example_config ''/user/a@d/status'') = None
   \<and> subs (subscribe example_config ''q2'' ''/user/a@d/status'' 3 4 example_subscribing)
        (subkeyOf example_config ''/user/a@d/status'') = Some 1
   \<and> filter isPresence
        (effects (subscribe example_config ''q2'' ''/user/a@d/status'' 3 4 example_subscribing)) =
       [Send (presence ''a@d'' ''c.org'')]
   \<and> subsPresences (subscribe example_config ''q2'' ''/user/a@d/status'' 3 4 example_subscribing)
        ''c.org'' = Some 1"
proof -
  have absent: "subs example_subscribing (subkeyOf example_config ''/user/a@d/status'') = None"
    by (simp add: example_subscribing_fields subkeyOf_def example_key_def)
  show ?thesis
    using absent
    by (simp add: subscribe_absent [OF absent] example_subscribing_fields isPresence_def
          presence_def subscribeIq_def subkeyOf_def example_key_def)
qed

lemma emissionId_nonempty [simp]: "emissionId e \<noteq> []"
  by (simp add: emissionId_def)

lemma stanzaListener_fanout:
  assumes sub: "subs s (subkeyOf cfg nodeId) = Some a"
      and fan: "truthy (fanoutRealm cfg)"
      and m: "st_name m = ''message''" "st_payload m = EventItems nodeId es" "es \<noteq> []"
  shows "\<exists>s1. stanzaListener cfg m s = Inr s1
     \<and> map (\<lambda>i. (fo_id i, fo_prev_id i)) (posts (effects s1)) =
         map (\<lambda>i. (fo_id i, fo_prev_id i)) (posts (effects s)) @
         replicate 2 (Some (emissionId (last es)),
            if items (udObjs s (userData (subObjs s a))) \<noteq> None
               \<and> truthy (lastPublishedId (udObjs s (userData (subObjs s a))))
            then lastPublishedId (udObjs s (userData (subObjs s a))) else None)
     \<and> lastPublishedId (udObjs s1 (userData (subObjs s a))) = Some (emissionId (last es))
     \<and> items (udObjs s1 (userData (subObjs s a))) \<noteq> None
     \<and> userData (subObjs s1 a) = userData (subObjs s a)
     \<and> (st_id m = None \<longrightarrow> subs s1 = subs s)"
proof -
  from publishItems_fanout [OF sub fan m(3), of m]
  obtain s' where s': "publishItems cfg m nodeId es s = Inr s'"
     "lastPublishedId (udObjs s' (userData (subObjs s a))) = Some (emissionId (last es))"
     "items (udObjs s' (userData (subObjs s a))) =
         Some ((case items (udObjs s (userData (subObjs s a))) of None \<Rightarrow> [] | Some xs \<Rightarrow> xs)
               @ map mkItem es)"
     "map (\<lambda>i. (fo_id i, fo_prev_id i)) (posts (effects s')) =
         map (\<lambda>i. (fo_id i, fo_prev_id i)) (posts (effects s)) @
         replicate 2 (Some (emissionId (last es)),
            if items (udObjs s (userData (subObjs s a))) \<noteq> None
               \<and> truthy (lastPublishedId (udObjs s (userData (subObjs s a))))
            then lastPublishedId (udObjs s (userData (subObjs s a))) else None)"
     "subObjs s' = subObjs s" "subs s' = subs s"
    by blast
  have "stanzaListener cfg m s = Inr (dispatchReply m s')"
    by (simp add: stanzaListener_items [OF m(1) m(2)] s'(1))
  moreover have "st_id m = None \<Longrightarrow> dispatchReply m s' = s'"
    by (simp add: dispatchReply_def)
  ultimately show ?thesis
    using s'(2-6) by auto
qed

subsection \<open>The chain of fan-out emissions\<close>

text \<open>
  C6. Fan-out is configured and the topic has a subscription entry. A notification
  for the topic that carries entries posts two items to the fan-out service (the
  atom and the json channel), both with the id of the last entry: its id, an
  underscore and its update time cut to whole seconds. When the user data of the
  entry has seen no notification before, they carry no previous id. When the
  entry is still there as the next such notification arrives, the items posted for
  it carry as previous id the id posted for the first.
\<close>

theorem fanout_prev_id_chain:
  assumes sub: "subs s (subkeyOf cfg nodeId) = Some a"
      and fan: "truthy (fanoutRealm cfg)"
      and m1: "st_name m1 = ''message''" "st_payload m1 = EventItems nodeId es1" "es1 \<noteq> []"
      and m2: "st_name m2 = ''message''" "st_payload m2 = EventItems nodeId es2" "es2 \<noteq> []"
  shows "\<exists>s1. stanzaListener cfg m1 s = Inr s1
     \<and> (\<exists>prev. map (\<lambda>i. (fo_id i, fo_prev_id i)) (posts (effects s1)) =
            map (\<lambda>i. (fo_id i, fo_prev_id i)) (posts (effects s)) @
            [(Some (emissionId (last es1)), prev), (Some (emissionId (last es1)), prev)]
          \<and> (items (udObjs s (userData (subObjs s a))) = None \<longrightarrow> prev = None))
     \<and> (subs s1 (subkeyOf cfg nodeId) = Some a \<longrightarrow>
         (\<exists>s2. stanzaListener cfg m2 s1 = Inr s2
            \<and> map (\<lambda>i. (fo_id i, fo_prev_id i)) (posts (effects s2)) =
               map (\<lambda>i. (fo_id i, fo_prev_id i)) (posts (effects s1)) @
               [(Some (emissionId (last es2)), Some (emissionId (last es1))),
                (Some (emissionId (last es2)), Some (emissionId (last es1)))]))"
proof -
  let ?u = "userData (subObjs s a)"
  let ?prev = "if items (udObjs s ?u) \<noteq> None \<and> truthy (lastPublishedId (udObjs s ?u))
               then lastPublishedId (udObjs s ?u) else None"
  from stanzaListener_fanout [OF sub fan m1]
  obtain s1 where s1: "stanzaListener cfg m1 s = Inr s1"
     "map (\<lambda>i. (fo_id i, fo_prev_id i)) (posts (effects s1)) =
         map (\<lambda>i. (fo_id i, fo_prev_id i)) (posts (effects s)) @
         replicate 2 (Some (emissionId (last es1)), ?prev)"
     "lastPublishedId (udObjs s1 ?u) = Some (emissionId (last es1))"
     "items (udObjs s1 ?u) \<noteq> None"
     "userData (subObjs s1 a) = ?u"
    by blast
  have first: "\<exists>prev. map (\<lambda>i. (fo_id i, fo_prev_id i)) (posts (effects s1)) =
            map (\<lambda>i. (fo_id i, fo_prev_id i)) (posts (effects s)) @
            [(Some (emissionId (last es1)), prev), (Some (emissionId (last es1)), prev)]
          \<and> (items (udObjs s ?u) = None \<longrightarrow> prev = None)"
    by (rule exI [of _ ?prev]) (simp add: s1(2) numeral_2_eq_2)
  have second: "\<exists>s2. stanzaListener cfg m2 s1 = Inr s2
            \<and> map (\<lambda>i. (fo_id i, fo_prev_id i)) (posts (effects s2)) =
               map (\<lambda>i. (fo_id i, fo_prev_id i)) (posts (effects s1)) @
               [(Some (emissionId (last es2)), Some (emissionId (last es1))),
                (Some (emissionId (last es2)), Some (emissionId (last es1)))]"
    if still: "subs s1 (subkeyOf cfg nodeId) = Some a"
  proof -
    from stanzaListener_fanout [OF still fan m2]
    obtain s2 where s2: "stanzaListener cfg m2 s1 = Inr s2"
      "map (\<lambda>i. (fo_id i, fo_prev_id i)) (posts (effects s2)) =
         map (\<lambda>i. (fo_id i, fo_prev_id i)) (posts (effects s1)) @
         replicate 2 (Some (emissionId (last es2)),
            if items (udObjs s1 (userData (subObjs s1 a))) \<noteq> None
               \<and> truthy (lastPublishedId (udObjs s1 (userData (subObjs s1 a))))
            then lastPublishedId (udObjs s1 (userData (subObjs s1 a))) else None)"
      by blast
    show ?thesis
      using s2 s1(3,4) by (simp add: s1(5) truthy_def numeral_2_eq_2)
  qed
  show ?thesis
    apply (rule exI [of _ s1])
    apply (intro conjI impI)
      apply (rule s1(1))
     apply (rule first)
    apply (erule second)
    done
qed

lemma example_emissionIds [simp]:
  "emissionId example_entry = ''e1_12000''"
  "emissionId example_entry2 = ''e2_67000''"
  by (simp_all add: emissionId_def example_entry_def example_entry2_def show_int_def
        show_nat.simps digit_char_def)

theorem fanout_prev_id_chain_witness:
  "subs example_subscribing (subkeyOf example_config posts_example_node) = Some 0
   \<and> truthy (fanoutRealm example_config)
   \<and> st_name (example_notification posts_example_node [example_entry]) = ''message''
   \<and> st_payload (example_notification posts_example_node [example_entry]) =
       EventItems posts_example_node [example_entry]
   \<and> [example_entry] \<noteq> []
   \<and> st_name (example_notification posts_example_node [example_entry2]) = ''message''
   \<and> st_payload (example_notification posts_example_node [example_entry2]) =
       EventItems posts_example_node [example_entry2]
   \<and> [example_entry2] \<noteq> []
   \<and> (\<exists>s1. stanzaListener example_config
               (example_notification posts_example_node [example_entry]) example_subscribing = Inr s1
         \<and> map (\<lambda>i. (fo_id i, fo_prev_id i)) (posts (effects s1)) =
             [(Some ''e1_12000'', None), (Some ''e1_12000'', None)]
         \<and> (\<exists>s2. stanzaListener example_config
                     (example_notification posts_example_node [example_entry2]) s1 = Inr s2
               \<and> map (\<lambda>i. (fo_id i, fo_prev_id i)) (posts (effects s2)) =
                   [(Some ''e1_12000'', None), (Some ''e1_12000'', None),
                    (Some ''e2_67000'', Some ''e1_12000''),
                    (Some ''e2_67000'', Some ''e1_12000'')]))"
proof -
  let ?m1 = "example_notification posts_example_node [example_entry]"
  let ?m2 = "example_notification posts_example_node [example_entry2]"
  have h: "subs example_subscribing (subkeyOf example_config posts_example_node) = Some 0"
    "truthy (fanoutRealm example_config)"
    "st_name ?m1 = ''message''" "st_payload ?m1 = EventItems posts_example_node [example_entry]"
    "[example_entry] \<noteq> []"
    "st_name ?m2 = ''message''" "st_payload ?m2 = EventItems posts_example_node [example_entry2]"
    "[example_entry2] \<noteq> []"
    by (simp_all add: example_subscribing_fields truthy_def)
  from fanout_prev_id_chain [OF h]
  obtain s1 where all: "stanzaListener example_config ?m1 example_subscribing = Inr s1
     \<and> (\<exists>prev. map (\<lambda>i. (fo_id i, fo_prev_id i)) (posts (effects s1)) =
            map (\<lambda>i. (fo_id i, fo_prev_id i)) (posts (effects example_subscribing)) @
            [(Some (emissionId (last [example_entry])), prev),
             (Some (emissionId (last [example_entry])), prev)]
          \<and> (items (udObjs example_subscribing (userData (subObjs example_subscribing 0))) = None
               \<longrightarrow> prev = None))
     \<and> (subs s1 (subkeyOf example_config posts_example_node) = Some 0 \<longrightarrow>
         (\<exists>s2. stanzaListener example_config ?m2 s1 = Inr s2
            \<and> map (\<lambda>i. (fo_id i, fo_prev_id i)) (posts (effects s2)) =
               map (\<lambda>i. (fo_id i, fo_prev_id i)) (posts (effects s1)) @
               [(Some (emissionId (last [example_entry2])), Some (emissionId (last [example_entry]))),
                (Some (emissionId (last [example_entry2])), Some (emissionId (last [example_entry])))]))"
    ..
  from conjunct1 [OF conjunct2 [OF all]] obtain prev where p12: "map (\<lambda>i. (fo_id i, fo_prev_id i)) (posts (effects s1)) =
            map (\<lambda>i. (fo_id i, fo_prev_id i)) (posts (effects example_subscribing)) @
            [(Some (emissionId (last [example_entry])), prev),
             (Some (emissionId (last [example_entry])), prev)]
          \<and> (items (udObjs example_subscribing (userData (subObjs example_subscribing 0))) = None
               \<longrightarrow> prev = None)"
    ..
  note s1 = conjunct1 [OF all] conjunct1 [OF p12] conjunct2 [OF p12] conjunct2 [OF conjunct2 [OF all]]
  have prev: "prev = None"
    using s1(3) by (simp add: example_subscribing_fields empty_user_data_def)
  have e1: "map (\<lambda>i. (fo_id i, fo_prev_id i)) (posts (effects s1)) =
             [(Some ''e1_12000'', None), (Some ''e1_12000'', None)]"
    unfolding s1(2) prev
    by (simp add: example_subscribing_fields posts_def posted_def presence_def subscribeIq_def)
  from stanzaListener_fanout [OF h(1) h(2) h(3) h(4) h(5)] s1(1)
  have "subs s1 = subs example_subscribing" by auto
  then have "subs s1 (subkeyOf example_config posts_example_node) = Some 0"
    by (simp add: example_subscribing_fields)
  from mp [OF s1(4) this] obtain s2 where s2': "stanzaListener example_config ?m2 s1 = Inr s2 \<and>
    map (\<lambda>i. (fo_id i, fo_prev_id i)) (posts (effects s2)) =
               map (\<lambda>i. (fo_id i, fo_prev_id i)) (posts (effects s1)) @
               [(Some (emissionId (last [example_entry2])), Some (emissionId (last [example_entry]))),
                (Some (emissionId (last [example_entry2])), Some (emissionId (last [example_entry])))]"
    ..
  note s2 = conjunct1 [OF s2'] conjunct2 [OF s2']
  have e2: "map (\<lambda>i. (fo_id i, fo_prev_id i)) (posts (effects s2)) =
                   [(Some ''e1_12000'', None), (Some ''e1_12000'', None),
                    (Some ''e2_67000'', Some ''e1_12000''),
                    (Some ''e2_67000'', Some ''e1_12000'')]"
    unfolding s2(2) e1 by simp
  from s1(1) e1 s2(1) e2 have "\<exists>s1. stanzaListener example_config ?m1 example_subscribing = Inr s1
         \<and> map (\<lambda>i. (fo_id i, fo_prev_id i)) (posts (effects s1)) =
             [(Some ''e1_12000'', None), (Some ''e1_12000'', None)]
         \<and> (\<exists>s2. stanzaListener example_config ?m2 s1 = Inr s2
               \<and> map (\<lambda>i. (fo_id i, fo_prev_id i)) (posts (effects s2)) =
                   [(Some ''e1_12000'', None), (Some ''e1_12000'', None),
                    (Some ''e2_67000'', Some ''e1_12000''),
                    (Some ''e2_67000'', Some ''e1_12000'')])"
    by (intro exI [of _ s1] conjI exI [of _ s2])
  with h show ?thesis by (intro conjI)
qed

lemma act_fields [simp]:
  "actions (act a h) = actions h @ [a]" "srv (act a h) = srv h" "req (act a h) = req h"
  by (simp_all add: act_def)

subsection \<open>Errors of a new connection\<close>

text \<open>
  C7. The error listener of \<open>createSession\<close>. When the error equals (by \<open>==\<close>) the text
  \<open>XMPP authentication failure\<close>, the only thing done is the unauthorized response;
  a string equals it exactly when it is that text. For every other error the only
  thing added is the call of \<open>next\<close> with that same error.
\<close>

theorem createSession_error_outcome:
  "(loose_eq err ''XMPP authentication failure'' \<longrightarrow>
      createSession_error err k h = act SendUnauthorized h
      \<and> actions (createSession_error err k h) = actions h @ [SendUnauthorized]
      \<and> srv (createSession_error err k h) = srv h
      \<and> req (createSession_error err k h) = req h)
   \<and> (\<not> loose_eq err ''XMPP authentication failure'' \<longrightarrow>
      actions (createSession_error err k h) = actions h @ [Next err]
      \<and> req (createSession_error err k h) = req h
      \<and> sessionCache (srv (createSession_error err k h)) = sessionCache (srv h))
   \<and> (loose_eq (ErrString x) ''XMPP authentication failure''
        \<longleftrightarrow> x = ''XMPP authentication failure'')"
  by (cases k) (simp_all add: createSession_error_def callNext_def loose_eq_def)

theorem createSession_error_outcome_witness:
  "loose_eq (ErrString ''XMPP authentication failure'') ''XMPP authentication failure''
   \<and> actions (createSession_error (ErrString ''XMPP authentication failure'') NextMiddleware
        (incoming example_server anonymous_request)) = [SendUnauthorized]
   \<and> \<not> loose_eq (ErrString ''ECONNREFUSED'') ''XMPP authentication failure''
   \<and> actions (createSession_error (ErrString ''ECONNREFUSED'') NextMiddleware
        (incoming example_server anonymous_request)) = [Next (ErrString ''ECONNREFUSED'')]"
proof -
  have a: "loose_eq (ErrString ''XMPP authentication failure'') ''XMPP authentication failure''"
    and b: "\<not> loose_eq (ErrString ''ECONNREFUSED'') ''XMPP authentication failure''"
    by (simp_all add: loose_eq_def)
  from a createSession_error_outcome [of "ErrString ''XMPP authentication failure''"
      NextMiddleware "incoming example_server anonymous_request"]
  have "actions (createSession_error (ErrString ''XMPP authentication failure'') NextMiddleware
        (incoming example_server anonymous_request)) = [SendUnauthorized]"
    by (simp add: incoming_def)
  moreover from b createSession_error_outcome [of "ErrString ''ECONNREFUSED''"
      NextMiddleware "incoming example_server anonymous_request"]
  have "actions (createSession_error (ErrString ''ECONNREFUSED'') NextMiddleware
        (incoming example_server anonymous_request)) = [Next (ErrString ''ECONNREFUSED'')]"
    by (simp add: incoming_def)
  ultimately show ?thesis using a b by simp
qed

subsection \<open>The anonymous session\<close>

text \<open>
  C8. A request without session id and without credentials. When the anonymous
  session is set, the provider gives it to the request and makes no connection.
  When it is not set, the provider starts a connection whose continuation is the
  function of \<open>useAnonymousSession\<close>. If that connection fails, with any error, while
  the request has no session, the anonymous session stays unset, no session is
  stored in the cache, the error is answered or passed on, and the next such
  request starts a connection again. If the connection comes online the session
  made for it becomes the anonymous session and is not put into the cache.
\<close>

theorem anonymous_session_singleton:
  assumes anon: "anonymous (req h)"
  shows "(\<forall>a. anonymousSession (srv h) = Some a \<longrightarrow>
            provider cfg h = provideSession a NextMiddleware h
            \<and> req_session (req (provider cfg h)) = Some a
            \<and> anonymousSession (srv (provider cfg h)) = Some a
            \<and> actions (provider cfg h) = actions h @
                 (if truthy (so_id a) then [SetHeader ''X-Session-Id'' (js_string (so_id a))]
                  else []) @ [Next ErrAbsent])
       \<and> (anonymousSession (srv h) = None \<longrightarrow>
            provider cfg h = act (Connect (xmppConnectionOptions cfg (req h)) AnonymousNext) h)
       \<and> (anonymousSession (srv h) = None \<and> req_session (req h) = None \<longrightarrow>
            (let h1 = createSession_error err AnonymousNext (provider cfg h)
             in anonymousSession (srv h1) = None
              \<and> sessionCache (srv h1) = sessionCache (srv h)
              \<and> actions h1 = actions (provider cfg h) @
                   [if loose_eq err ''XMPP authentication failure'' then SendUnauthorized
                    else Next err]
              \<and> (\<forall>r. anonymous r \<longrightarrow>
                    actions (provider cfg (incoming (srv h1) r)) =
                      [Connect (xmppConnectionOptions cfg r) AnonymousNext])))
       \<and> (anonymousSession (srv h) = None \<longrightarrow>
            (let h2 = createSession_online key client AnonymousNext (provider cfg h)
             in anonymousSession (srv h2) = Some \<lparr>so_id = None, so_client = client\<rparr>
              \<and> req_session (req h2) = Some \<lparr>so_id = None, so_client = client\<rparr>
              \<and> sessionCache (srv h2) = sessionCache (srv h)
              \<and> actions h2 = actions (provider cfg h) @ [Next ErrAbsent]))"
proof -
  have nohdr: "\<not> truthy (header_session_id (req h))" and nouser: "\<not> truthy (req_user (req h))"
    using anon by (simp_all add: anonymous_def)
  have prov: "provider cfg h = useAnonymousSession cfg h"
    using nohdr nouser by (simp add: provider_def)
  have reuse: "provider cfg h = provideSession a NextMiddleware h
            \<and> req_session (req (provider cfg h)) = Some a
            \<and> anonymousSession (srv (provider cfg h)) = Some a
            \<and> actions (provider cfg h) = actions h @
                 (if truthy (so_id a) then [SetHeader ''X-Session-Id'' (js_string (so_id a))]
                  else []) @ [Next ErrAbsent]"
    if "anonymousSession (srv h) = Some a" for a
    using that
    by (auto simp add: prov useAnonymousSession_def provideSession_def callNext_def Let_def
          truthy_def js_string_def split: option.splits)
  have create: "provider cfg h = act (Connect (xmppConnectionOptions cfg (req h)) AnonymousNext) h"
    if "anonymousSession (srv h) = None"
    using that by (simp add: prov useAnonymousSession_def createSession_def)
  have again: "actions (provider cfg (incoming sv r)) =
                      [Connect (xmppConnectionOptions cfg r) AnonymousNext]"
    if "anonymous r" "anonymousSession sv = None" for r sv
    using that
    by (simp add: provider_def useAnonymousSession_def createSession_def incoming_def
          anonymous_def)
  have failed: "(let h1 = createSession_error err AnonymousNext (provider cfg h)
             in anonymousSession (srv h1) = None
              \<and> sessionCache (srv h1) = sessionCache (srv h)
              \<and> actions h1 = actions (provider cfg h) @
                   [if loose_eq err ''XMPP authentication failure'' then SendUnauthorized
                    else Next err]
              \<and> (\<forall>r. anonymous r \<longrightarrow>
                    actions (provider cfg (incoming (srv h1) r)) =
                      [Connect (xmppConnectionOptions cfg r) AnonymousNext]))"
    if none: "anonymousSession (srv h) = None" "req_session (req h) = None"
  proof -
    let ?h1 = "createSession_error err AnonymousNext (provider cfg h)"
    have a1: "anonymousSession (srv ?h1) = None"
      using none by (simp add: create createSession_error_def callNext_def)
    have a2: "sessionCache (srv ?h1) = sessionCache (srv h)"
      using none by (simp add: create createSession_error_def callNext_def)
    have a3: "actions ?h1 = actions (provider cfg h) @
                   [if loose_eq err ''XMPP authentication failure'' then SendUnauthorized
                    else Next err]"
      by (simp add: createSession_error_def callNext_def)
    show ?thesis
      unfolding Let_def using a1 a2 a3 again by blast
  qed
  have online: "(let h2 = createSession_online key client AnonymousNext (provider cfg h)
             in anonymousSession (srv h2) = Some \<lparr>so_id = None, so_client = client\<rparr>
              \<and> req_session (req h2) = Some \<lparr>so_id = None, so_client = client\<rparr>
              \<and> sessionCache (srv h2) = sessionCache (srv h)
              \<and> actions h2 = actions (provider cfg h) @ [Next ErrAbsent])"
    if none: "anonymousSession (srv h) = None"
    using nouser
    by (simp add: create [OF none] createSession_online_def provideSession_def callNext_def
          Let_def err_truthy_def)
  from reuse create failed online show ?thesis by blast
qed

theorem anonymous_session_singleton_witness:
  "anonymous (req (incoming example_server anonymous_request))
   \<and> anonymousSession (srv (incoming example_server anonymous_request)) = None
   \<and> req_session (req (incoming example_server anonymous_request)) = None
   \<and> actions (provider example_config (incoming example_server anonymous_request)) =
       [Connect (xmppConnectionOptions example_config anonymous_request) AnonymousNext]
   \<and> anonymousSession (srv (createSession_error (ErrString ''ECONNREFUSED'') AnonymousNext
         (provider example_config (incoming example_server anonymous_request)))) = None
   \<and> actions (createSession_error (ErrString ''ECONNREFUSED'') AnonymousNext
         (provider example_config (incoming example_server anonymous_request))) =
       [Connect (xmppConnectionOptions example_config anonymous_request) AnonymousNext,
        Next (ErrString ''ECONNREFUSED'')]
   \<and> anonymousSession (srv (createSession_online ''k'' 7 AnonymousNext
         (provider example_config (incoming example_server anonymous_request)))) =
       Some example_anonymous
   \<and> anonymous (req (incoming (example_server\<lparr>anonymousSession := Some example_anonymous\<rparr>)
         anonymous_request))
   \<and> anonymousSession (srv (incoming (example_server\<lparr>anonymousSession := Some example_anonymous\<rparr>)
         anonymous_request)) = Some example_anonymous
   \<and> req_session (req (provider example_config
         (incoming (example_server\<lparr>anonymousSession := Some example_anonymous\<rparr>)
            anonymous_request))) = Some example_anonymous
   \<and> actions (provider example_config
         (incoming (example_server\<lparr>anonymousSession := Some example_anonymous\<rparr>)
            anonymous_request)) = [Next ErrAbsent]"
proof -
  let ?h = "incoming example_server anonymous_request"
  let ?g = "incoming (example_server\<lparr>anonymousSession := Some example_anonymous\<rparr>)
              anonymous_request"
  have h: "anonymous (req ?h)" "anonymousSession (srv ?h) = None" "req_session (req ?h) = None"
    by (simp_all add: anonymous_def incoming_def anonymous_request_def example_server_def
          truthy_def)
  have g: "anonymous (req ?g)" "anonymousSession (srv ?g) = Some example_anonymous"
    by (simp_all add: anonymous_def incoming_def anonymous_request_def truthy_def)
  note t = anonymous_session_singleton [OF h(1), of example_config "ErrString ''ECONNREFUSED''"
      "''k''" 7, unfolded Let_def]
  note u = anonymous_session_singleton [OF g(1), of example_config "ErrString ''ECONNREFUSED''"
      "''k''" 7, unfolded Let_def]
  have t2: "provider example_config ?h =
      act (Connect (xmppConnectionOptions example_config (req ?h)) AnonymousNext) ?h"
    using t h(2) by blast
  have t3: "anonymousSession (srv (createSession_error (ErrString ''ECONNREFUSED'') AnonymousNext
         (provider example_config ?h))) = None"
    "actions (createSession_error (ErrString ''ECONNREFUSED'') AnonymousNext
         (provider example_config ?h)) = actions (provider example_config ?h) @
         [if loose_eq (ErrString ''ECONNREFUSED'') ''XMPP authentication failure''
          then SendUnauthorized else Next (ErrString ''ECONNREFUSED'')]"
    using t h(2,3) by blast+
  have t4: "anonymousSession (srv (createSession_online ''k'' 7 AnonymousNext
         (provider example_config ?h))) = Some \<lparr>so_id = None, so_client = 7\<rparr>"
    using t h(2) by blast
  have u1: "req_session (req (provider example_config ?g)) = Some example_anonymous"
    "actions (provider example_config ?g) = actions ?g @
                 (if truthy (so_id example_anonymous)
                  then [SetHeader ''X-Session-Id'' (js_string (so_id example_anonymous))]
                  else []) @ [Next ErrAbsent]"
    using u g(2) by blast+
  have a1: "actions (provider example_config ?h) =
       [Connect (xmppConnectionOptions example_config anonymous_request) AnonymousNext]"
    by (simp add: t2) (simp add: incoming_def)
  have a2: "actions (createSession_error (ErrString ''ECONNREFUSED'') AnonymousNext
         (provider example_config ?h)) =
       [Connect (xmppConnectionOptions example_config anonymous_request) AnonymousNext,
        Next (ErrString ''ECONNREFUSED'')]"
    unfolding t3(2) a1 by (simp add: loose_eq_def)
  have a3: "actions (provider example_config ?g) = [Next ErrAbsent]"
    unfolding u1(2) by (simp add: incoming_def example_anonymous_def truthy_def)
  from h g a1 t3(1) a2 t4 u1(1) a3 show ?thesis
    by (simp add: example_anonymous_def)
qed

subsection \<open>Handlers registered with onStanza\<close>

text \<open>
  C9, at an input where the code departs from the claim. A handler that returns
  true is registered with \<open>onStanza\<close>. The next stanza reaches it, and the attempt to
  remove the listener throws a type error; no call of the model takes the
  handler out of the list of listeners, which still holds it.
\<close>

theorem onStanza_handler_not_removed:
  "stanzaHandlers (onStanza 9 always_done example_session) = [(9, always_done)]
   \<and> onStanzaCallback (9, always_done) (example_reply ''x'' ''result'')
         (onStanza 9 always_done example_session) = Inl TypeError
   \<and> receiveStanza example_config (example_reply ''x'' ''result'')
         (onStanza 9 always_done example_session) = Inl TypeError"
  by (simp add: onStanza_def onStanzaCallback_def receiveStanza_def stanzaListener_iq
        dispatchReply_def cache_get_def always_done_def Let_def)

subsection \<open>Calls of a reply handler\<close>

lemma replyCalls_simps [simp]:
  "replyCalls n [] = []"
  "replyCalls n (xs @ ys) = replyCalls n xs @ replyCalls n ys"
  "replyCalls n (ReplyCalled m st # xs) = (if m = n then [st] else []) @ replyCalls n xs"
  "replyCalls n (Send x # xs) = replyCalls n xs"
  "replyCalls n (OnSubCalled a b # xs) = replyCalls n xs"
  "replyCalls n (OnErrorCalled a c # xs) = replyCalls n xs"
  "replyCalls n (StanzaHandlerCalled a x # xs) = replyCalls n xs"
  "replyCalls n (HttpPost p cl is # xs) = replyCalls n xs"
  "replyCalls n (ConnectionEnd # xs) = replyCalls n xs"
  by (simp_all add: replyCalls_def)

lemma replyCalls_map_onsub [simp]: "replyCalls n (map (\<lambda>p. OnSubCalled (f p) (g p)) ps) = []"
  by (induction ps) simp_all

lemma replyCalls_map_onerror [simp]: "replyCalls n (map (\<lambda>p. OnErrorCalled (f p) (g p)) ps) = []"
  by (induction ps) simp_all

lemma callHandler_calls:
  "replyCalls n (effects (callHandler h st s)) =
     replyCalls n (effects s) @ (if h = UserReply n then [st] else [])"
  by (cases h; cases "st_type st = Some ''result''")
     (simp_all add: callHandler_def subscribeReply_result subscribeReply_failure)

lemma dispatchReply_cases:
  "dispatchReply st s = s \<or>
   (\<exists>i h. st_id st = Some i \<and> i \<noteq> [] \<and> cache_get (clock s) i (replyHandlers s) = Some h
      \<and> dispatchReply st s =
          callHandler h st (s\<lparr>replyHandlers := cache_remove i (replyHandlers s)\<rparr>))"
  by (auto simp add: dispatchReply_def split: option.splits)

lemma find_SomeD: "find P xs = Some x \<Longrightarrow> x \<in> set xs \<and> P x"
  by (induction xs) (auto split: if_splits)

lemma cache_get_SomeD:
  "cache_get now k c = Some v \<Longrightarrow> \<exists>t. (k, v, t) \<in> set (centries c)"
  by (auto simp add: cache_get_def split: option.splits if_splits dest!: find_SomeD)

lemma publishItems_frame:
  assumes "publishItems cfg st nodeId es s = Inr s'"
  shows "replyHandlers s' = replyHandlers s" "replyCalls n (effects s') = replyCalls n (effects s)"
    "subs s' = subs s" "subObjs s' = subObjs s" "nextRef s' = nextRef s"
    "subsCache s' = subsCache s" "clock s' = clock s" "stanzaHandlers s' = stanzaHandlers s"
  using assms
  by (auto simp add: publishItems_def fanoutItems_def fanoutPublish_def Let_def emit_def
        split: option.splits if_splits)

lemma stanzaListener_cases:
  assumes "stanzaListener cfg st s = Inr s'"
  shows "\<exists>s1. s' = dispatchReply st s1 \<and> replyHandlers s1 = replyHandlers s
     \<and> replyCalls n (effects s1) = replyCalls n (effects s)
     \<and> subs s1 = subs s \<and> subObjs s1 = subObjs s \<and> nextRef s1 = nextRef s
     \<and> subsCache s1 = subsCache s \<and> clock s1 = clock s
     \<and> stanzaHandlers s1 = stanzaHandlers s"
proof (cases "st_name st = ''message''")
  case False
  with assms show ?thesis by (auto simp add: stanzaListener_def)
next
  case True
  show ?thesis
  proof (cases "st_payload st")
    case (EventItems nodeId es)
    with True assms obtain s1 where s1: "publishItems cfg st nodeId es s = Inr s1"
      "s' = dispatchReply st s1"
      by (auto simp add: stanzaListener_def split: sum.splits)
    from publishItems_frame [OF s1(1)] s1(2) show ?thesis by blast
  qed (use True assms in \<open>auto simp add: stanzaListener_def\<close>)
qed

lemma runStanzaHandlers_frame:
  assumes "runStanzaHandlers hs st s = Inr s'"
  shows "replyHandlers s' = replyHandlers s \<and> replyCalls n (effects s') = replyCalls n (effects s)
     \<and> subs s' = subs s \<and> subObjs s' = subObjs s \<and> nextRef s' = nextRef s
     \<and> subsCache s' = subsCache s \<and> clock s' = clock s"
  using assms
  by (induction hs arbitrary: s)
     (auto simp add: onStanzaCallback_def Let_def split: sum.splits if_splits)

lemma length_filter_conj_le: "length (filter (\<lambda>x. Q x \<and> P x) xs) \<le> length (filter P xs)"
  by (induction xs) simp_all

lemma length_filter_conj_less:
  "x \<in> set xs \<Longrightarrow> P x \<Longrightarrow> \<not> Q x \<Longrightarrow>
   length (filter (\<lambda>x. Q x \<and> P x) xs) < length (filter P xs)"
proof (induction xs)
  case Nil
  then show ?case by simp
next
  case (Cons y ys)
  have le: "length (filter (\<lambda>x. Q x \<and> P x) ys) \<le> length (filter P ys)"
    by (rule length_filter_conj_le)
  show ?case
  proof (cases "x = y")
    case True
    with Cons.prems le show ?thesis by simp
  next
    case False
    with Cons have "length (filter (\<lambda>x. Q x \<and> P x) ys) < length (filter P ys)" by simp
    then show ?thesis by simp
  qed
qed

lemma length_filter_mono:
  "(\<And>x. x \<in> set xs \<Longrightarrow> Q x \<Longrightarrow> R x) \<Longrightarrow> length (filter Q xs) \<le> length (filter R xs)"
  by (induction xs) auto

lemma length_filter_split:
  "length (filter H (filter P xs)) + length (filter H (filter (\<lambda>x. \<not> P x) xs)) =
   length (filter H xs)"
  by (induction xs) simp_all

lemma stored_remove_le:
  "stored h (s\<lparr>replyHandlers := cache_remove i (replyHandlers s)\<rparr>) \<le> stored h s"
  by (simp add: stored_def cache_remove_def length_filter_conj_le)

lemma stored_remove_less:
  assumes "cache_get now i (replyHandlers s) = Some h"
  shows "stored h (s\<lparr>replyHandlers := cache_remove i (replyHandlers s)\<rparr>) < stored h s"
proof -
  from cache_get_SomeD [OF assms] obtain t where "(i, h, t) \<in> set (centries (replyHandlers s))" ..
  then show ?thesis
    unfolding stored_def cache_remove_def
    by (simp add: length_filter_conj_less [where x = "(i, h, t)"])
qed

lemma stored_callHandler [simp]: "stored h (callHandler h' st s) = stored h s"
  by (simp add: stored_def)

lemma dispatchReply_potential:
  "length (replyCalls n (effects (dispatchReply st s))) + stored (UserReply n) (dispatchReply st s)
     \<le> length (replyCalls n (effects s)) + stored (UserReply n) s"
proof -
  from dispatchReply_cases [of st s] show ?thesis
  proof
    assume "dispatchReply st s = s"
    then show ?thesis by simp
  next
    assume "\<exists>i h. st_id st = Some i \<and> i \<noteq> [] \<and> cache_get (clock s) i (replyHandlers s) = Some h
      \<and> dispatchReply st s =
          callHandler h st (s\<lparr>replyHandlers := cache_remove i (replyHandlers s)\<rparr>)"
    then obtain i h where hit: "cache_get (clock s) i (replyHandlers s) = Some h"
      and eq: "dispatchReply st s =
          callHandler h st (s\<lparr>replyHandlers := cache_remove i (replyHandlers s)\<rparr>)"
      by blast
    show ?thesis
    proof (cases "h = UserReply n")
      case True
      from stored_remove_less [OF hit] True
      have "stored (UserReply n) (s\<lparr>replyHandlers := cache_remove i (replyHandlers s)\<rparr>)
              < stored (UserReply n) s" by simp
      then show ?thesis by (simp add: eq callHandler_calls True)
    next
      case False
      with stored_remove_le [of "UserReply n" i s] show ?thesis
        by (simp add: eq callHandler_calls)
    qed
  qed
qed

lemma sendQuery_potential:
  "replyCalls n (effects (sendQuery cfg q iq h s)) = replyCalls n (effects s)"
  "stored (UserReply n) (sendQuery cfg q iq h s)
     \<le> stored (UserReply n) s + (if h = UserReply n then 1 else 0)"
  by (simp_all add: sendQuery_def Let_def stored_def cache_put_def length_filter_conj_le
        le_SucI)

lemma subscribe_potential:
  "replyCalls n (effects (subscribe cfg q nodeId f g s)) = replyCalls n (effects s)"
  "stored (UserReply n) (subscribe cfg q nodeId f g s) \<le> stored (UserReply n) s"
proof -
  show "replyCalls n (effects (subscribe cfg q nodeId f g s)) = replyCalls n (effects s)"
  proof (cases "subs s (subkeyOf cfg nodeId)")
    case None
    show ?thesis by (simp add: subscribe_absent [OF None])
  next
    case (Some a)
    then show ?thesis by (simp add: subscribe_def Let_def)
  qed
  show "stored (UserReply n) (subscribe cfg q nodeId f g s) \<le> stored (UserReply n) s"
  proof (cases "subs s (subkeyOf cfg nodeId)")
    case None
    show ?thesis
      by (simp add: subscribe_absent [OF None] stored_def cache_put_def length_filter_conj_le)
  next
    case (Some a)
    then show ?thesis by (simp add: subscribe_def Let_def stored_def)
  qed
qed

lemma expireReplyHandlers_calls:
  "replyCalls n (effects (expireReplyHandlers es s)) =
     replyCalls n (effects s) @
     map (\<lambda>_. serviceUnavailable) (filter (\<lambda>e. fst (snd e) = UserReply n) es)"
  by (induction es s rule: expireReplyHandlers.induct)
     (simp_all add: replyHandlers_onexpired_def callHandler_calls Let_def)

lemma expireReplyHandlers_entries:
  "centries (replyHandlers (expireReplyHandlers es s)) =
     filter (\<lambda>e. fst e \<notin> fst ` set es) (centries (replyHandlers s))"
  by (induction es s rule: expireReplyHandlers.induct)
     (auto simp add: replyHandlers_onexpired_def Let_def cache_remove_def intro: filter_cong)

lemma expireReplyHandlers_frame [simp]:
  "ttl (replyHandlers (expireReplyHandlers es s)) = ttl (replyHandlers s)"
  "clock (expireReplyHandlers es s) = clock s"
  "subsCache (expireReplyHandlers es s) = subsCache s"
  "nextRef (expireReplyHandlers es s) = nextRef s"
  by (induction es s rule: expireReplyHandlers.induct)
     (simp_all add: replyHandlers_onexpired_def Let_def cache_remove_def)

lemma tick_potential:
  "length (replyCalls n (effects (tick dt s))) + stored (UserReply n) (tick dt s)
     \<le> length (replyCalls n (effects s)) + stored (UserReply n) s"
proof -
  let ?c = "replyHandlers s"
  let ?now = "clock s + dt"
  let ?P = "\<lambda>(k, v, t). t + ttl ?c \<le> ?now"
  let ?es = "filter ?P (centries ?c)"
  let ?H = "\<lambda>e. fst (snd e) = UserReply n"
  have rest: "length (filter ?H (filter (\<lambda>e. fst e \<notin> fst ` set ?es) (centries ?c)))
               \<le> length (filter ?H (filter (\<lambda>e. \<not> ?P e) (centries ?c)))"
    unfolding filter_filter
    by (rule length_filter_mono) force
  have "length (filter ?H ?es) + length (filter ?H (filter (\<lambda>e. \<not> ?P e) (centries ?c))) =
        length (filter ?H (centries ?c))"
    by (rule length_filter_split)
  with rest show ?thesis
    by (simp add: tick_def Let_def cache_expired_def expireReplyHandlers_calls stored_def
          expireReplyHandlers_entries)
qed

lemma queryIds_simps [simp]:
  "queryIds n [] = []"
  "queryIds n (SendQueryEv q iq m # evs) = (if m = n then [q] else []) @ queryIds n evs"
  "queryIds n (SubscribeEv q nodeId a b # evs) = queryIds n evs"
  "queryIds n (StanzaEv st # evs) = queryIds n evs"
  "queryIds n (TickEv dt # evs) = queryIds n evs"
  "queryIds n (OnStanzaEv m h # evs) = queryIds n evs"
  "queryIds n (ReplyToQueryEv iq # evs) = queryIds n evs"
  "queryIds n (EndEv # evs) = queryIds n evs"
  "queryIds n (xs @ ys) = queryIds n xs @ queryIds n ys"
  by (simp_all add: queryIds_def)

lemma inbound_simps [simp]:
  "inbound [] = []"
  "inbound (SendQueryEv q iq m # evs) = inbound evs"
  "inbound (SubscribeEv q nodeId a b # evs) = inbound evs"
  "inbound (StanzaEv st # evs) = st # inbound evs"
  "inbound (TickEv dt # evs) = inbound evs"
  "inbound (OnStanzaEv m h # evs) = inbound evs"
  "inbound (ReplyToQueryEv iq # evs) = inbound evs"
  "inbound (EndEv # evs) = inbound evs"
  "inbound (xs @ ys) = inbound xs @ inbound ys"
  by (simp_all add: inbound_def)

lemma receiveStanza_potential:
  assumes "receiveStanza cfg st s = Inr s'"
  shows "length (replyCalls n (effects s')) + stored (UserReply n) s'
           \<le> length (replyCalls n (effects s)) + stored (UserReply n) s"
proof -
  from assms obtain s2 where s2: "stanzaListener cfg st s = Inr s2"
    "runStanzaHandlers (stanzaHandlers s2) st s2 = Inr s'"
    by (auto simp add: receiveStanza_def split: sum.splits)
  from stanzaListener_cases [OF s2(1), of n] obtain s1 where s1: "s2 = dispatchReply st s1"
    "replyHandlers s1 = replyHandlers s" "replyCalls n (effects s1) = replyCalls n (effects s)"
    by blast
  from runStanzaHandlers_frame [OF s2(2), of n]
  have "length (replyCalls n (effects s')) + stored (UserReply n) s'
          = length (replyCalls n (effects s2)) + stored (UserReply n) s2"
    by (simp add: stored_def)
  also have "\<dots> \<le> length (replyCalls n (effects s1)) + stored (UserReply n) s1"
    unfolding s1(1) by (rule dispatchReply_potential)
  also have "\<dots> = length (replyCalls n (effects s)) + stored (UserReply n) s"
    by (simp add: s1 stored_def)
  finally show ?thesis .
qed

lemma step_potential:
  assumes "step cfg e s = Inr s'"
  shows "length (replyCalls n (effects s')) + stored (UserReply n) s'
           \<le> length (replyCalls n (effects s)) + stored (UserReply n) s + length (queryIds n [e])"
proof (cases e)
  case (SendQueryEv q iq m)
  with assms have "s' = sendQuery cfg q iq (UserReply m) s" by simp
  with sendQuery_potential [of n cfg q iq "UserReply m" s] show ?thesis
    by (auto simp add: SendQueryEv split: if_splits)
next
  case (SubscribeEv q nodeId a b)
  with assms have "s' = subscribe cfg q nodeId a b s" by simp
  with subscribe_potential [of n cfg q nodeId a b s] show ?thesis by (simp add: SubscribeEv)
next
  case (StanzaEv st)
  with assms receiveStanza_potential [of cfg st s s' n] show ?thesis by simp
next
  case (TickEv dt)
  with assms tick_potential [of n dt s] show ?thesis by auto
next
  case (OnStanzaEv m h)
  with assms show ?thesis by (auto simp add: onStanza_def stored_def)
next
  case (ReplyToQueryEv iq)
  with assms show ?thesis by (auto simp add: replyToQuery_def stored_def)
next
  case EndEv
  with assms show ?thesis by (auto simp add: endSession_def stored_def)
qed

lemma run_potential:
  "run cfg evs s = Inr s' \<Longrightarrow>
   length (replyCalls n (effects s')) + stored (UserReply n) s'
     \<le> length (replyCalls n (effects s)) + stored (UserReply n) s + length (queryIds n evs)"
proof (induction evs arbitrary: s)
  case Nil
  then show ?case by simp
next
  case (Cons e evs)
  from Cons.prems obtain s1 where s1: "step cfg e s = Inr s1" "run cfg evs s1 = Inr s'"
    by (auto split: sum.splits)
  from Cons.IH [OF s1(2)] step_potential [OF s1(1), of n]
  have "length (replyCalls n (effects s')) + stored (UserReply n) s'
     \<le> length (replyCalls n (effects s)) + stored (UserReply n) s + length (queryIds n [e])
         + length (queryIds n evs)"
    by linarith
  moreover have "length (queryIds n (e # evs)) = length (queryIds n [e]) + length (queryIds n evs)"
    using queryIds_simps(9) [of n "[e]" evs] by simp
  ultimately show ?case by simp
qed

lemma fromQuery_mono: "fromQuery n evs st \<Longrightarrow> fromQuery n (evs @ later) st"
  by (auto simp add: fromQuery_def)

lemma tracked_mono: "tracked n evs s \<Longrightarrow> tracked n (evs @ later) s"
  by (auto simp add: tracked_def fromQuery_mono)

lemma tracked_frame:
  assumes "tracked n evs s"
      and "set (centries (replyHandlers s')) \<subseteq> set (centries (replyHandlers s))"
      and "replyCalls n (effects s') = replyCalls n (effects s)"
  shows "tracked n evs s'"
  using assms by (auto simp add: tracked_def)

lemma tracked_dispatchReply:
  assumes "tracked n evs s"
  shows "tracked n (evs @ [StanzaEv st]) (dispatchReply st s)"
proof -
  from dispatchReply_cases [of st s] show ?thesis
  proof
    assume "dispatchReply st s = s"
    with assms show ?thesis by (simp add: tracked_mono)
  next
    assume "\<exists>i h. st_id st = Some i \<and> i \<noteq> [] \<and> cache_get (clock s) i (replyHandlers s) = Some h
      \<and> dispatchReply st s =
          callHandler h st (s\<lparr>replyHandlers := cache_remove i (replyHandlers s)\<rparr>)"
    then obtain i h where id: "st_id st = Some i"
      and hit: "cache_get (clock s) i (replyHandlers s) = Some h"
      and eq: "dispatchReply st s =
          callHandler h st (s\<lparr>replyHandlers := cache_remove i (replyHandlers s)\<rparr>)"
      by blast
    from cache_get_SomeD [OF hit] obtain t where mem: "(i, h, t) \<in> set (centries (replyHandlers s))" ..
    have new: "fromQuery n (evs @ [StanzaEv st]) st" if "h = UserReply n"
    proof -
      from assms mem that have "i \<in> set (queryIds n evs)"
        by (force simp add: tracked_def)
      with id show ?thesis by (auto simp add: fromQuery_def)
    qed
    from assms have old: "tracked n (evs @ [StanzaEv st]) s" by (rule tracked_mono)
    show ?thesis
      unfolding eq tracked_def
      using old new
      by (auto simp add: callHandler_calls tracked_def cache_remove_def)
  qed
qed

lemma tracked_step:
  assumes "step cfg e s = Inr s'" and "tracked n evs s"
  shows "tracked n (evs @ [e]) s'"
proof (cases e)
  case (SendQueryEv q iq m)
  with assms(1) have s': "s' = sendQuery cfg q iq (UserReply m) s" by simp
  from assms(2) show ?thesis
    unfolding s' SendQueryEv tracked_def
    by (auto simp add: sendQuery_def Let_def cache_put_def fromQuery_mono)
next
  case (SubscribeEv q nodeId a b)
  with assms(1) have s': "s' = subscribe cfg q nodeId a b s" by simp
  have "tracked n evs s'"
  proof (cases "subs s (subkeyOf cfg nodeId)")
    case None
    from assms(2) show ?thesis
      unfolding s' tracked_def
      by (auto simp add: subscribe_absent [OF None] cache_put_def)
  next
    case (Some x)
    with assms(2) show ?thesis
      unfolding s' tracked_def by (auto simp add: subscribe_def Let_def)
  qed
  then show ?thesis unfolding SubscribeEv by (rule tracked_mono)
next
  case (StanzaEv st)
  with assms(1) obtain s2 where s2: "stanzaListener cfg st s = Inr s2"
    "runStanzaHandlers (stanzaHandlers s2) st s2 = Inr s'"
    by (auto simp add: receiveStanza_def split: sum.splits)
  from stanzaListener_cases [OF s2(1), of n] obtain s1 where s1: "s2 = dispatchReply st s1"
    "replyHandlers s1 = replyHandlers s" "replyCalls n (effects s1) = replyCalls n (effects s)"
    by blast
  from assms(2) s1(2,3) have "tracked n evs s1" by (simp add: tracked_def)
  then have "tracked n (evs @ [StanzaEv st]) s2" unfolding s1(1) by (rule tracked_dispatchReply)
  with runStanzaHandlers_frame [OF s2(2), of n] show ?thesis
    unfolding StanzaEv by (simp add: tracked_def)
next
  case (TickEv dt)
  with assms(1) have s': "s' = tick dt s" by simp
  from assms(2) have "tracked n evs s'"
    unfolding s' tracked_def
    by (auto simp add: tick_def Let_def expireReplyHandlers_calls expireReplyHandlers_entries
          fromQuery_def)
  then show ?thesis unfolding TickEv by (rule tracked_mono)
next
  case (OnStanzaEv m h)
  with assms have "tracked n evs s'" by (auto simp add: onStanza_def tracked_def)
  then show ?thesis by (rule tracked_mono)
next
  case (ReplyToQueryEv iq)
  with assms have "tracked n evs s'" by (auto simp add: replyToQuery_def tracked_def)
  then show ?thesis by (rule tracked_mono)
next
  case EndEv
  with assms have "tracked n evs s'" by (auto simp add: endSession_def tracked_def)
  then show ?thesis by (rule tracked_mono)
qed

lemma tracked_run:
  "run cfg evs s = Inr s' \<Longrightarrow> tracked n past s \<Longrightarrow> tracked n (past @ evs) s'"
proof (induction evs arbitrary: s past)
  case Nil
  then show ?case by simp
next
  case (Cons e evs)
  from Cons.prems(1) obtain s1 where s1: "step cfg e s = Inr s1" "run cfg evs s1 = Inr s'"
    by (auto split: sum.splits)
  from tracked_step [OF s1(1) Cons.prems(2)] have "tracked n (past @ [e]) s1" .
  from Cons.IH [OF s1(2) this] show ?case by simp
qed

lemma Session_fields [simp]:
  "effects (Session cfg i j now) = []"
  "centries (replyHandlers (Session cfg i j now)) = []"
  "centries (subsCache (Session cfg i j now)) = []"
  "subs (Session cfg i j now) = Map.empty"
  "nextRef (Session cfg i j now) = 0"
  "ttl (replyHandlers (Session cfg i j now)) = requestExpirationTime cfg"
  "clock (Session cfg i j now) = now"
  by (simp_all add: Session_def)

lemma const_in_map_filter: "x \<in> set xs \<Longrightarrow> P x \<Longrightarrow> c \<in> set (map (\<lambda>_. c) (filter P xs))"
  by (induction xs) auto

lemma timeout_fires_handler:
  assumes mem: "(q, UserReply n, t) \<in> set (centries (replyHandlers s))"
      and late: "t + ttl (replyHandlers s) \<le> clock s + dt"
  shows "serviceUnavailable \<in> set (replyCalls n (effects (tick dt s)))"
    and "cache_get now q (replyHandlers (tick dt s)) = None"
proof -
  let ?es = "cache_expired (clock s + dt) (replyHandlers s)"
  have in_es: "(q, UserReply n, t) \<in> set ?es"
    using mem late by (simp add: cache_expired_def)
  have m: "serviceUnavailable
          \<in> set (map (\<lambda>_. serviceUnavailable) (filter (\<lambda>e. fst (snd e) = UserReply n) ?es))"
    by (rule const_in_map_filter [OF in_es]) simp
  have eq: "replyCalls n (effects (tick dt s)) =
      replyCalls n (effects s) @
      map (\<lambda>_. serviceUnavailable) (filter (\<lambda>e. fst (snd e) = UserReply n) ?es)"
    by (simp add: tick_def Let_def expireReplyHandlers_calls)
  show "serviceUnavailable \<in> set (replyCalls n (effects (tick dt s)))"
    unfolding eq set_append by (rule UnI2) (rule m)
  have "q \<in> fst ` set ?es" using in_es by force
  then have "find (\<lambda>e. fst e = q)
               (filter (\<lambda>e. fst e \<notin> fst ` set ?es) (centries (replyHandlers s))) = None"
    by (auto simp add: find_None_iff)
  then show "cache_get now q (replyHandlers (tick dt s)) = None"
    by (simp add: tick_def Let_def cache_get_def expireReplyHandlers_entries)
qed

lemma stanzaListener_other:
  "st_name st \<noteq> ''message'' \<Longrightarrow> stanzaListener cfg st s = Inr (dispatchReply st s)"
  by (simp add: stanzaListener_def)

lemma reply_fires_any:
  assumes hit: "cache_get (clock s0) q (replyHandlers s0) = Some (UserReply n)"
      and q: "q \<noteq> []" and id: "st_id st = Some q"
      and run: "stanzaListener cfg st s0 = Inr s'"
  shows "replyCalls n (effects s') = replyCalls n (effects s0) @ [st]"
    and "cache_get t q (replyHandlers s') = None"
proof -
  from stanzaListener_cases [OF run, of n] obtain s1 where s1: "s' = dispatchReply st s1"
    "replyHandlers s1 = replyHandlers s0" "replyCalls n (effects s1) = replyCalls n (effects s0)"
    "clock s1 = clock s0"
    by blast
  from hit have hit1: "cache_get (clock s1) q (replyHandlers s1) = Some (UserReply n)"
    by (simp add: s1)
  have eq: "s' = emit (ReplyCalled n st) (s1\<lparr>replyHandlers := cache_remove q (replyHandlers s1)\<rparr>)"
    unfolding s1(1) by (simp add: dispatchReply_hit [OF id q hit1] callHandler_def)
  show "replyCalls n (effects s') = replyCalls n (effects s0) @ [st]"
    by (simp add: eq s1(3))
  show "cache_get t q (replyHandlers s') = None"
    by (simp add: eq cache_get_remove_same)
qed

lemma example_run_result:
  "run example_config example_run (Session example_config (Some ''sid'') ''a@d'' 0) =
     Inr example_final"
  by (simp add: example_run_def Session_def sendQuery_def receiveStanza_def stanzaListener_def
        dispatchReply_def cache_get_def cache_put_def cache_remove_def callHandler_def
        tick_def cache_expired_def new_cache_def example_reply_def example_config_def
        emit_def Let_def example_query_def example_final_def example_session_def)

lemma example_querying_fields:
  "clock example_querying = 0"
  "replyHandlers example_querying = \<lparr>ttl = 60, centries = [(''q1'', UserReply 5, 0)]\<rparr>"
  by (simp_all add: example_querying_def sendQuery_def Let_def cache_put_def new_cache_def)

lemma subsInv_I:
  assumes "centries (subsCache s) = []"
      and "distinct (map fst (centries (replyHandlers s)))"
      and "\<And>q k a t. (q, SubscribeReply k a, t) \<in> set (centries (replyHandlers s)) \<Longrightarrow>
            subs s k = Some a \<and> state (subObjs s a) = ''subscribing'' \<and> a < nextRef s"
      and "\<And>q k a t q' k' t'.
            (q, SubscribeReply k a, t) \<in> set (centries (replyHandlers s)) \<Longrightarrow>
            (q', SubscribeReply k' a, t') \<in> set (centries (replyHandlers s)) \<Longrightarrow> q = q'"
      and "\<And>k a. subs s k = Some a \<Longrightarrow> a < nextRef s"
  shows "subsInv s"
  unfolding subsInv_def using assms by blast

lemma subsInv_D:
  assumes "subsInv s"
  shows "centries (subsCache s) = []"
    and "distinct (map fst (centries (replyHandlers s)))"
    and "\<And>q k a t. (q, SubscribeReply k a, t) \<in> set (centries (replyHandlers s)) \<Longrightarrow>
            subs s k = Some a \<and> state (subObjs s a) = ''subscribing'' \<and> a < nextRef s"
    and "\<And>q k a t q' k' t'.
            (q, SubscribeReply k a, t) \<in> set (centries (replyHandlers s)) \<Longrightarrow>
            (q', SubscribeReply k' a, t') \<in> set (centries (replyHandlers s)) \<Longrightarrow> q = q'"
    and "\<And>k a. subs s k = Some a \<Longrightarrow> a < nextRef s"
  using assms unfolding subsInv_def by blast+

lemma subsInv_frame:
  assumes "subsInv s"
      and "subsCache s' = subsCache s" and "replyHandlers s' = replyHandlers s"
      and "subs s' = subs s" and "subObjs s' = subObjs s" and "nextRef s' = nextRef s"
  shows "subsInv s'"
  using assms unfolding subsInv_def by simp

lemma subscribedAt_frame:
  assumes "subscribedAt k a s" and "subs s' = subs s" and "subObjs s' = subObjs s"
  shows "subscribedAt k a s'"
  using assms unfolding subscribedAt_def by simp

lemma fire_preserves:
  assumes inv: "subsInv s"
      and mem: "(i, h, t) \<in> set (centries (replyHandlers s))"
  shows "subsInv (callHandler h st (s\<lparr>replyHandlers := cache_remove i (replyHandlers s)\<rparr>))
       \<and> (subscribedAt kp ap s \<longrightarrow>
         subscribedAt kp ap
           (callHandler h st (s\<lparr>replyHandlers := cache_remove i (replyHandlers s)\<rparr>)))"
proof -
  let ?s0 = "s\<lparr>replyHandlers := cache_remove i (replyHandlers s)\<rparr>"
  let ?s' = "callHandler h st ?s0"
  note d = subsInv_D [OF inv]
  have ent: "centries (replyHandlers ?s') = filter (\<lambda>e. fst e \<noteq> i) (centries (replyHandlers s))"
    by (simp add: cache_remove_def)
  have sub_ent: "\<And>e. e \<in> set (centries (replyHandlers ?s')) \<Longrightarrow>
                   e \<in> set (centries (replyHandlers s)) \<and> fst e \<noteq> i"
    by (simp add: cache_remove_def)
  have dist: "distinct (map fst (centries (replyHandlers ?s')))"
    unfolding ent using d(2) by (simp add: distinct_map_filter)
  have nxt: "nextRef ?s' = nextRef s" and sc: "subsCache ?s' = subsCache s" by simp_all
  show ?thesis
  proof (cases h)
    case (UserReply m)
    then have same: "subs ?s' = subs s" "subObjs ?s' = subObjs s"
      by (simp_all add: callHandler_def)
    have inv': "subsInv ?s'"
    proof (rule subsInv_I)
      show "centries (subsCache ?s') = []" using d(1) by (simp add: sc)
      show "distinct (map fst (centries (replyHandlers ?s')))" by (rule dist)
      show "subs ?s' k = Some a \<and> state (subObjs ?s' a) = ''subscribing'' \<and> a < nextRef ?s'"
        if "(q, SubscribeReply k a, t) \<in> set (centries (replyHandlers ?s'))" for q k a t
        using d(3) [of q k a t] sub_ent [OF that] by (simp add: same nxt)
      show "q = q'"
        if "(q, SubscribeReply k a, t) \<in> set (centries (replyHandlers ?s'))"
          "(q', SubscribeReply k' a, t') \<in> set (centries (replyHandlers ?s'))"
        for q k a t q' k' t'
        using d(4) sub_ent [OF that(1)] sub_ent [OF that(2)] by blast
      show "a < nextRef ?s'" if "subs ?s' k = Some a" for k a
        using d(5) [of k a] that by (simp add: same nxt)
    qed
    have keep: "subscribedAt kp ap ?s'" if "subscribedAt kp ap s"
      using that same by (simp add: subscribedAt_def)
    from inv' keep show ?thesis by blast
  next
    case (SubscribeReply k a)
    from d(3) mem SubscribeReply have own: "subs s k = Some a"
      "state (subObjs s a) = ''subscribing''" "a < nextRef s"
      by blast+
    have other: "b \<noteq> a \<and> k' \<noteq> k"
      if "(q, SubscribeReply k' b, u) \<in> set (centries (replyHandlers ?s'))" for q k' b u
    proof -
      from sub_ent [OF that] have m2: "(q, SubscribeReply k' b, u) \<in> set (centries (replyHandlers s))"
        and ne: "q \<noteq> i" by simp_all
      have "b \<noteq> a"
      proof
        assume "b = a"
        with d(4) [of q k' a u i k t] m2 mem SubscribeReply have "q = i" by simp
        with ne show False by simp
      qed
      moreover from d(3) [OF m2] own(1) have "k' = k \<Longrightarrow> b = a" by simp
      ultimately show ?thesis by blast
    qed
    have inv': "subsInv ?s'"
    proof (cases "st_type st = Some ''result''")
      case True
      have s': "subs ?s' = subs s" "subObjs ?s' = (subObjs s)(a := (subObjs s a)\<lparr>state := ''subscribed''\<rparr>)"
        by (simp_all add: callHandler_def SubscribeReply subscribeReply_result [OF True])
      show ?thesis
      proof (rule subsInv_I)
        show "centries (subsCache ?s') = []" using d(1) by (simp add: sc)
        show "distinct (map fst (centries (replyHandlers ?s')))" by (rule dist)
        show "subs ?s' k' = Some b \<and> state (subObjs ?s' b) = ''subscribing'' \<and> b < nextRef ?s'"
          if "(q, SubscribeReply k' b, u) \<in> set (centries (replyHandlers ?s'))" for q k' b u
          using d(3) [of q k' b u] sub_ent [OF that] other [OF that] by (simp add: s' nxt)
        show "q = q'"
          if "(q, SubscribeReply k' b, u) \<in> set (centries (replyHandlers ?s'))"
            "(q', SubscribeReply k'' b, u') \<in> set (centries (replyHandlers ?s'))"
          for q k' b u q' k'' u'
          using d(4) sub_ent [OF that(1)] sub_ent [OF that(2)] by blast
        show "b < nextRef ?s'" if "subs ?s' k' = Some b" for k' b
          using d(5) [of k' b] that by (simp add: s' nxt)
      qed
    next
      case False
      have s': "subs ?s' = (subs s)(k := None)" "subObjs ?s' = subObjs s"
        by (simp_all add: callHandler_def SubscribeReply subscribeReply_failure [OF False])
      show ?thesis
      proof (rule subsInv_I)
        show "centries (subsCache ?s') = []" using d(1) by (simp add: sc)
        show "distinct (map fst (centries (replyHandlers ?s')))" by (rule dist)
        show "subs ?s' k' = Some b \<and> state (subObjs ?s' b) = ''subscribing'' \<and> b < nextRef ?s'"
          if "(q, SubscribeReply k' b, u) \<in> set (centries (replyHandlers ?s'))" for q k' b u
          using d(3) [of q k' b u] sub_ent [OF that] other [OF that] by (simp add: s' nxt)
        show "q = q'"
          if "(q, SubscribeReply k' b, u) \<in> set (centries (replyHandlers ?s'))"
            "(q', SubscribeReply k'' b, u') \<in> set (centries (replyHandlers ?s'))"
          for q k' b u q' k'' u'
          using d(4) sub_ent [OF that(1)] sub_ent [OF that(2)] by blast
        show "b < nextRef ?s'" if "subs ?s' k' = Some b" for k' b
          using d(5) [of k' b] that by (simp add: s' nxt split: if_splits)
      qed
    qed
    have keep: "subscribedAt kp ap ?s'" if p: "subscribedAt kp ap s"
    proof (cases "st_type st = Some ''result''")
      case True
      have s': "subs ?s' = subs s" "subObjs ?s' = (subObjs s)(a := (subObjs s a)\<lparr>state := ''subscribed''\<rparr>)"
        by (simp_all add: callHandler_def SubscribeReply subscribeReply_result [OF True])
      from p show ?thesis by (simp add: subscribedAt_def s')
    next
      case False
      have s': "subs ?s' = (subs s)(k := None)" "subObjs ?s' = subObjs s"
        by (simp_all add: callHandler_def SubscribeReply subscribeReply_failure [OF False])
      have "kp \<noteq> k"
      proof
        assume "kp = k"
        with p own(1) have "ap = a" by (simp add: subscribedAt_def)
        with p own(2) show False by (simp add: subscribedAt_def)
      qed
      with p show ?thesis by (simp add: subscribedAt_def s')
    qed
    from inv' keep show ?thesis by blast
  qed
qed

lemma callHandler_commute:
  "callHandler h st (s\<lparr>replyHandlers := R\<rparr>) = (callHandler h st s)\<lparr>replyHandlers := R\<rparr>"
  by (cases h; cases "st_type st = Some ''result''")
     (simp_all add: callHandler_def subscribeReply_result subscribeReply_failure emit_def)

lemma dispatchReply_preserves:
  assumes "subsInv s"
  shows "subsInv (dispatchReply st s)
       \<and> (subscribedAt kp ap s \<longrightarrow> subscribedAt kp ap (dispatchReply st s))"
proof -
  from dispatchReply_cases [of st s] show ?thesis
  proof
    assume "dispatchReply st s = s"
    with assms show ?thesis by simp
  next
    assume "\<exists>i h. st_id st = Some i \<and> i \<noteq> [] \<and> cache_get (clock s) i (replyHandlers s) = Some h
      \<and> dispatchReply st s =
          callHandler h st (s\<lparr>replyHandlers := cache_remove i (replyHandlers s)\<rparr>)"
    then obtain i h where hit: "cache_get (clock s) i (replyHandlers s) = Some h"
      and eq: "dispatchReply st s =
          callHandler h st (s\<lparr>replyHandlers := cache_remove i (replyHandlers s)\<rparr>)"
      by blast
    from cache_get_SomeD [OF hit] obtain t where "(i, h, t) \<in> set (centries (replyHandlers s))" ..
    from fire_preserves [OF assms this] show ?thesis unfolding eq .
  qed
qed

lemma receiveStanza_preserves:
  assumes run: "receiveStanza cfg st s = Inr s'" and inv: "subsInv s"
  shows "subsInv s' \<and> (subscribedAt kp ap s \<longrightarrow> subscribedAt kp ap s')"
proof -
  from run obtain s2 where s2: "stanzaListener cfg st s = Inr s2"
    "runStanzaHandlers (stanzaHandlers s2) st s2 = Inr s'"
    by (auto simp add: receiveStanza_def split: sum.splits)
  from stanzaListener_cases [OF s2(1), of 0] obtain s1 where s1: "s2 = dispatchReply st s1"
    "replyHandlers s1 = replyHandlers s" "subs s1 = subs s" "subObjs s1 = subObjs s"
    "nextRef s1 = nextRef s" "subsCache s1 = subsCache s"
    by blast
  have i1: "subsInv s1" by (rule subsInv_frame [OF inv s1(6) s1(2) s1(3) s1(4) s1(5)])
  have k1: "subscribedAt kp ap s1" if "subscribedAt kp ap s"
    by (rule subscribedAt_frame [OF that s1(3) s1(4)])
  from dispatchReply_preserves [OF i1, of st kp ap]
  have i2: "subsInv s2" and k2: "subscribedAt kp ap s1 \<Longrightarrow> subscribedAt kp ap s2"
    unfolding s1(1) by blast+
  from runStanzaHandlers_frame [OF s2(2), of 0]
  have f: "subsCache s' = subsCache s2" "replyHandlers s' = replyHandlers s2"
    "subs s' = subs s2" "subObjs s' = subObjs s2" "nextRef s' = nextRef s2"
    by simp_all
  have "subsInv s'" by (rule subsInv_frame [OF i2 f])
  moreover have "subscribedAt kp ap s'" if "subscribedAt kp ap s"
    by (rule subscribedAt_frame [OF k2 [OF k1 [OF that]] f(3) f(4)])
  ultimately show ?thesis by blast
qed

lemma put_entries:
  "set (centries (cache_put now q h c)) =
     {e \<in> set (centries c). fst e \<noteq> q} \<union> {(q, h, now)}"
  "distinct (map fst (centries c)) \<Longrightarrow> distinct (map fst (centries (cache_put now q h c)))"
  by (auto simp add: cache_put_def distinct_map_filter)

lemma sendQuery_user_preserves:
  assumes inv: "subsInv s"
  shows "subsInv (sendQuery cfg q iq (UserReply m) s)
       \<and> (subscribedAt kp ap s \<longrightarrow> subscribedAt kp ap (sendQuery cfg q iq (UserReply m) s))"
proof -
  let ?s' = "sendQuery cfg q iq (UserReply m) s"
  note d = subsInv_D [OF inv]
  have f: "replyHandlers ?s' = cache_put (clock s) q (UserReply m) (replyHandlers s)"
    "subs ?s' = subs s" "subObjs ?s' = subObjs s" "nextRef ?s' = nextRef s"
    "subsCache ?s' = subsCache s"
    by (simp_all add: sendQuery_def Let_def)
  have old: "(q', SubscribeReply k a, t) \<in> set (centries (replyHandlers s))"
    if "(q', SubscribeReply k a, t) \<in> set (centries (replyHandlers ?s'))" for q' k a t
    using that by (auto simp add: f(1) put_entries(1))
  have "subsInv ?s'"
  proof (rule subsInv_I)
    show "centries (subsCache ?s') = []" using d(1) by (simp add: f)
    show "distinct (map fst (centries (replyHandlers ?s')))"
      unfolding f(1) by (rule put_entries(2) [OF d(2)])
    show "subs ?s' k = Some a \<and> state (subObjs ?s' a) = ''subscribing'' \<and> a < nextRef ?s'"
      if "(q', SubscribeReply k a, t) \<in> set (centries (replyHandlers ?s'))" for q' k a t
      using d(3) [OF old [OF that]] by (simp add: f)
    show "q1 = q2"
      if "(q1, SubscribeReply k a, t) \<in> set (centries (replyHandlers ?s'))"
        "(q2, SubscribeReply k' a, t') \<in> set (centries (replyHandlers ?s'))"
      for q1 k a t q2 k' t'
      using d(4) [OF old [OF that(1)] old [OF that(2)]] .
    show "a < nextRef ?s'" if "subs ?s' k = Some a" for k a
      using d(5) [of k a] that by (simp add: f)
  qed
  moreover have "subscribedAt kp ap ?s'" if "subscribedAt kp ap s"
    using that by (simp add: subscribedAt_def f)
  ultimately show ?thesis by blast
qed

lemma subsInv_same_states:
  assumes "subsInv s"
      and "subsCache s' = subsCache s" and "replyHandlers s' = replyHandlers s"
      and "subs s' = subs s" and "\<And>a. state (subObjs s' a) = state (subObjs s a)"
      and "nextRef s' = nextRef s"
  shows "subsInv s'"
  using assms unfolding subsInv_def by simp

lemma subscribe_preserves:
  assumes inv: "subsInv s"
  shows "subsInv (subscribe cfg q nodeId f g s)
       \<and> (subscribedAt kp ap s \<longrightarrow> subscribedAt kp ap (subscribe cfg q nodeId f g s))"
proof (cases "subs s (subkeyOf cfg nodeId)")
  case (Some a0)
  let ?s' = "subscribe cfg q nodeId f g s"
  have f: "subsCache ?s' = subsCache s" "replyHandlers ?s' = replyHandlers s"
    "subs ?s' = subs s" "nextRef ?s' = nextRef s"
    using Some by (simp_all add: subscribe_def Let_def)
  have st: "state (subObjs ?s' a) = state (subObjs s a)" for a
    using Some by (simp add: subscribe_def Let_def)
  have "subsInv ?s'" by (rule subsInv_same_states [OF inv f(1) f(2) f(3) st f(4)])
  moreover have "subscribedAt kp ap ?s'" if "subscribedAt kp ap s"
    using that by (simp add: subscribedAt_def f st)
  ultimately show ?thesis by blast
next
  case None
  let ?key = "subkeyOf cfg nodeId"
  let ?a = "nextRef s"
  let ?s' = "subscribe cfg q nodeId f g s"
  note d = subsInv_D [OF inv]
  have f: "subsCache ?s' = subsCache s"
    "replyHandlers ?s' = cache_put (clock s) q (SubscribeReply ?key ?a) (replyHandlers s)"
    "subs ?s' = (subs s)(?key \<mapsto> ?a)"
    "subObjs ?s' = (subObjs s)(?a := \<lparr>state = ''subscribing'',
        pending = [\<lparr>onsub = f, onerror = g\<rparr>], userData = ?a\<rparr>)"
    "nextRef ?s' = Suc ?a"
    by (simp_all add: subscribe_absent [OF None])
  have split: "((q', SubscribeReply k b, t) \<in> set (centries (replyHandlers s)) \<and> q' \<noteq> q)
       \<or> (q' = q \<and> k = ?key \<and> b = ?a)"
    if "(q', SubscribeReply k b, t) \<in> set (centries (replyHandlers ?s'))" for q' k b t
    using that by (auto simp add: f(2) put_entries(1))
  have oldfacts: "subs s k = Some b \<and> state (subObjs s b) = ''subscribing'' \<and> b < ?a \<and> k \<noteq> ?key"
    if "(q', SubscribeReply k b, t) \<in> set (centries (replyHandlers s))" for q' k b t
    using d(3) [OF that] None by auto
  have "subsInv ?s'"
  proof (rule subsInv_I)
    show "centries (subsCache ?s') = []" using d(1) by (simp add: f)
    show "distinct (map fst (centries (replyHandlers ?s')))"
      unfolding f(2) by (rule put_entries(2) [OF d(2)])
    show "subs ?s' k = Some b \<and> state (subObjs ?s' b) = ''subscribing'' \<and> b < nextRef ?s'"
      if "(q', SubscribeReply k b, t) \<in> set (centries (replyHandlers ?s'))" for q' k b t
    proof -
      from split [OF that] show ?thesis
      proof
        assume "(q', SubscribeReply k b, t) \<in> set (centries (replyHandlers s)) \<and> q' \<noteq> q"
        then have "(q', SubscribeReply k b, t) \<in> set (centries (replyHandlers s))" ..
        from oldfacts [OF this] show ?thesis by (simp add: f)
      next
        assume "q' = q \<and> k = ?key \<and> b = ?a"
        then show ?thesis by (simp add: f)
      qed
    qed
    show "q1 = q2"
      if m1: "(q1, SubscribeReply k b, t) \<in> set (centries (replyHandlers ?s'))"
        and m2: "(q2, SubscribeReply k' b, t') \<in> set (centries (replyHandlers ?s'))"
      for q1 k b t q2 k' t'
    proof -
      from split [OF m1] split [OF m2] show ?thesis
      proof (elim disjE)
        assume "(q1, SubscribeReply k b, t) \<in> set (centries (replyHandlers s)) \<and> q1 \<noteq> q"
          "(q2, SubscribeReply k' b, t') \<in> set (centries (replyHandlers s)) \<and> q2 \<noteq> q"
        then show ?thesis using d(4) [of q1 k b t q2 k' t'] by blast
      next
        assume "(q1, SubscribeReply k b, t) \<in> set (centries (replyHandlers s)) \<and> q1 \<noteq> q"
          "q2 = q \<and> k' = ?key \<and> b = ?a"
        then show ?thesis using oldfacts [of q1 k b t] by simp
      next
        assume "q1 = q \<and> k = ?key \<and> b = ?a"
          "(q2, SubscribeReply k' b, t') \<in> set (centries (replyHandlers s)) \<and> q2 \<noteq> q"
        then show ?thesis using oldfacts [of q2 k' b t'] by simp
      next
        assume "q1 = q \<and> k = ?key \<and> b = ?a" "q2 = q \<and> k' = ?key \<and> b = ?a"
        then show ?thesis by simp
      qed
    qed
    show "b < nextRef ?s'" if "subs ?s' k = Some b" for k b
      using d(5) [of k b] that by (auto simp add: f split: if_splits)
  qed
  moreover have "subscribedAt kp ap ?s'" if p: "subscribedAt kp ap s"
  proof -
    from p have "subs s kp = Some ap" by (simp add: subscribedAt_def)
    with None d(5) [of kp ap] have "kp \<noteq> ?key" "ap \<noteq> ?a" by auto
    with p show ?thesis by (simp add: subscribedAt_def f)
  qed
  ultimately show ?thesis by blast
qed

lemma expire_preserves:
  "subsInv s \<Longrightarrow> set es \<subseteq> set (centries (replyHandlers s)) \<Longrightarrow> distinct (map fst es) \<Longrightarrow>
   subsInv (expireReplyHandlers es s)
     \<and> (subscribedAt kp ap s \<longrightarrow> subscribedAt kp ap (expireReplyHandlers es s))"
proof (induction es arbitrary: s)
  case Nil
  then show ?case by simp
next
  case (Cons e es)
  obtain k h t where e: "e = (k, h, t)" by (cases e)
  let ?s1 = "callHandler h serviceUnavailable
               (s\<lparr>replyHandlers := cache_remove k (replyHandlers s)\<rparr>)"
  have unfold: "expireReplyHandlers (e # es) s = expireReplyHandlers es ?s1"
    by (simp add: e replyHandlers_onexpired_def Let_def callHandler_commute)
  from Cons.prems(2) have mem: "(k, h, t) \<in> set (centries (replyHandlers s))"
    by (simp add: e)
  from fire_preserves [OF Cons.prems(1) mem, of serviceUnavailable kp ap]
  have i1: "subsInv ?s1" and k1: "subscribedAt kp ap s \<longrightarrow> subscribedAt kp ap ?s1"
    by blast+
  have sub: "set es \<subseteq> set (centries (replyHandlers ?s1))"
    using Cons.prems(2,3) by (auto simp add: e cache_remove_def)
  from Cons.prems(3) have dist: "distinct (map fst es)" by simp
  from Cons.IH [OF i1 sub dist] k1 show ?case unfolding unfold by blast
qed

lemma tick_preserves:
  assumes inv: "subsInv s"
  shows "subsInv (tick dt s) \<and> (subscribedAt kp ap s \<longrightarrow> subscribedAt kp ap (tick dt s))"
proof -
  let ?s1 = "s\<lparr>clock := clock s + dt\<rparr>"
  let ?es = "cache_expired (clock ?s1) (replyHandlers ?s1)"
  let ?s2 = "expireReplyHandlers ?es ?s1"
  note d = subsInv_D [OF inv]
  have i1: "subsInv ?s1" by (rule subsInv_frame [OF inv]) simp_all
  have sub: "set ?es \<subseteq> set (centries (replyHandlers ?s1))"
    by (auto simp add: cache_expired_def)
  have dist: "distinct (map fst ?es)"
    using d(2) by (simp add: cache_expired_def distinct_map_filter)
  from expire_preserves [OF i1 sub dist, of kp ap]
  have i2: "subsInv ?s2" and k2: "subscribedAt kp ap ?s1 \<longrightarrow> subscribedAt kp ap ?s2"
    by blast+
  have empty: "centries (subsCache ?s2) = []" by (rule subsInv_D(1) [OF i2])
  have eq: "tick dt s = ?s2\<lparr>subsCache := (subsCache ?s2)\<lparr>centries := []\<rparr>\<rparr>"
    by (simp add: tick_def Let_def d(1))
  have "subsInv (tick dt s)"
    unfolding eq using i2 unfolding subsInv_def by simp
  moreover have "subscribedAt kp ap (tick dt s)" if "subscribedAt kp ap s"
  proof -
    from that have "subscribedAt kp ap ?s1" by (simp add: subscribedAt_def)
    with k2 have "subscribedAt kp ap ?s2" by blast
    then show ?thesis unfolding eq by (simp add: subscribedAt_def)
  qed
  ultimately show ?thesis by blast
qed

lemma step_preserves:
  assumes "step cfg e s = Inr s'" and "subsInv s"
  shows "subsInv s' \<and> (subscribedAt kp ap s \<longrightarrow> subscribedAt kp ap s')"
proof (cases e)
  case (SendQueryEv q iq m)
  with assms sendQuery_user_preserves [OF assms(2), of cfg q iq m kp ap] show ?thesis by auto
next
  case (SubscribeEv q nodeId a b)
  with assms subscribe_preserves [OF assms(2), of cfg q nodeId a b kp ap] show ?thesis by auto
next
  case (StanzaEv st)
  with assms receiveStanza_preserves [of cfg st s s' kp ap] show ?thesis by simp
next
  case (TickEv dt)
  with assms tick_preserves [OF assms(2), of dt kp ap] show ?thesis by auto
next
  case (OnStanzaEv m h)
  with assms(1) have s': "s' = onStanza m h s" by simp
  have "subsInv s'"
    by (rule subsInv_frame [OF assms(2)]) (simp_all add: s' onStanza_def)
  moreover have "subscribedAt kp ap s \<longrightarrow> subscribedAt kp ap s'"
    by (simp add: subscribedAt_def s' onStanza_def)
  ultimately show ?thesis by blast
next
  case (ReplyToQueryEv iq)
  with assms(1) have s': "s' = replyToQuery iq s" by simp
  have "subsInv s'"
    by (rule subsInv_frame [OF assms(2)]) (simp_all add: s' replyToQuery_def)
  moreover have "subscribedAt kp ap s \<longrightarrow> subscribedAt kp ap s'"
    by (simp add: subscribedAt_def s' replyToQuery_def)
  ultimately show ?thesis by blast
next
  case EndEv
  with assms(1) have s': "s' = endSession s" by simp
  have "subsInv s'"
    by (rule subsInv_frame [OF assms(2)]) (simp_all add: s' endSession_def)
  moreover have "subscribedAt kp ap s \<longrightarrow> subscribedAt kp ap s'"
    by (simp add: subscribedAt_def s' endSession_def)
  ultimately show ?thesis by blast
qed

lemma run_preserves:
  "run cfg evs s = Inr s' \<Longrightarrow> subsInv s \<Longrightarrow>
   subsInv s' \<and> (subscribedAt kp ap s \<longrightarrow> subscribedAt kp ap s')"
proof (induction evs arbitrary: s)
  case Nil
  then show ?case by simp
next
  case (Cons e evs)
  from Cons.prems(1) obtain s1 where s1: "step cfg e s = Inr s1" "run cfg evs s1 = Inr s'"
    by (auto split: sum.splits)
  from step_preserves [OF s1(1) Cons.prems(2), of kp ap]
  have i1: "subsInv s1" and k1: "subscribedAt kp ap s \<longrightarrow> subscribedAt kp ap s1" by blast+
  from Cons.IH [OF s1(2) i1] k1 show ?case by blast
qed

lemma subsInv_Session: "subsInv (Session cfg i j now)"
  by (simp add: subsInv_def)

subsection \<open>Subscriptions are not evicted\<close>

text \<open>
  C10. The subscriptions of a session are the properties that \<open>subscribe\<close> assigns
  on \<open>_subs\<close> and that the listener reads and the failed reply deletes; nothing is
  ever put into that cache, so in every state a run reaches it holds no entry that
  could expire, and the passing of time leaves it as it is. An entry that is in
  state subscribed stays in place and subscribed through every further run of
  the session, whatever stanzas arrive and however much time passes.
\<close>

theorem subscription_never_evicted:
  assumes run: "run cfg evs (Session cfg i j now) = Inr s"
  shows "centries (subsCache s) = []
       \<and> (\<forall>dt. subsCache (tick dt s) = subsCache s)
       \<and> (\<forall>k a evs' s'. subscribedAt k a s \<and> run cfg evs' s = Inr s' \<longrightarrow> subscribedAt k a s')"
proof -
  from run_preserves [OF run subsInv_Session] have inv: "subsInv s" by blast
  then have empty: "centries (subsCache s) = []" by (rule subsInv_D(1))
  have "subsCache (tick dt s) = subsCache s" for dt
    by (simp add: tick_def Let_def empty)
  moreover have "subscribedAt k a s'" if "subscribedAt k a s" "run cfg evs' s = Inr s'"
    for k a evs' s'
    using run_preserves [OF that(2) inv, of k a] that(1) by blast
  ultimately show ?thesis using empty by blast
qed

lemma stanzaHandlers_dispatchReply [simp]:
  "stanzaHandlers (dispatchReply st s) = stanzaHandlers s"
  by (simp add: dispatchReply_def split: option.splits)

lemma stanzaHandlers_expire [simp]:
  "stanzaHandlers (expireReplyHandlers es s) = stanzaHandlers s"
  by (induction es s rule: expireReplyHandlers.induct)
     (simp_all add: replyHandlers_onexpired_def Let_def)

lemma stanzaHandlers_tick [simp]: "stanzaHandlers (tick dt s) = stanzaHandlers s"
  by (simp add: tick_def Let_def)

lemma receiveStanza_iq:
  "st_name st = ''iq'' \<Longrightarrow> stanzaHandlers s = [] \<Longrightarrow>
   receiveStanza cfg st s = Inr (dispatchReply st s)"
  by (simp add: receiveStanza_def stanzaListener_iq)

lemma example_subscribing_handlers: "stanzaHandlers example_subscribing = []"
proof -
  have absent: "subs example_session (subkeyOf example_config posts_example_node) = None"
    by simp
  show ?thesis
    unfolding example_subscribing_def by (simp add: subscribe_absent [OF absent])
qed

lemma example_subscribe_run:
  "run example_config
     [SubscribeEv ''q1'' posts_example_node 1 2, StanzaEv (example_reply ''q1'' ''result'')]
     (Session example_config (Some ''sid'') ''a@d'' 0) = Inr example_subscribed"
proof -
  have "run example_config
     [SubscribeEv ''q1'' posts_example_node 1 2, StanzaEv (example_reply ''q1'' ''result'')]
     (Session example_config (Some ''sid'') ''a@d'' 0) =
     run example_config [StanzaEv (example_reply ''q1'' ''result'')] example_subscribing"
    by (simp only: run.simps step.simps example_subscribing_def example_session_def sum.case)
  also have "\<dots> = Inr example_subscribed"
    by (simp add: receiveStanza_iq example_subscribing_handlers example_subscribed_def)
  finally show ?thesis .
qed

lemma example_later_run:
  "run example_config [TickEv 1000000, StanzaEv (example_reply ''q1'' ''error''), TickEv 5]
     example_subscribed = Inr example_later"
  by (simp add: receiveStanza_iq example_subscribing_handlers example_subscribed_def
        example_later_def)

lemma example_subscribed_at: "subscribedAt example_key 0 example_subscribed"
  unfolding example_subscribed_def subscribedAt_def
  by (simp add: dispatchReply_def example_subscribing_fields cache_get_put_same callHandler_def
        subscribeReply_result)

theorem subscription_never_evicted_witness:
  "run example_config
     [SubscribeEv ''q1'' posts_example_node 1 2, StanzaEv (example_reply ''q1'' ''result'')]
     (Session example_config (Some ''sid'') ''a@d'' 0) = Inr example_subscribed
   \<and> centries (subsCache example_subscribed) = []
   \<and> subscribedAt example_key 0 example_subscribed
   \<and> run example_config [TickEv 1000000, StanzaEv (example_reply ''q1'' ''error''), TickEv 5]
        example_subscribed = Inr example_later
   \<and> subscribedAt example_key 0 example_later"
proof -
  note t = subscription_never_evicted [OF example_subscribe_run]
  from t have empty: "centries (subsCache example_subscribed) = []" by (rule conjunct1)
  from t have "\<forall>k a evs' s'. subscribedAt k a example_subscribed
        \<and> run example_config evs' example_subscribed = Inr s' \<longrightarrow> subscribedAt k a s'"
    by (elim conjE)
  from this [rule_format, of example_key 0
      "[TickEv 1000000, StanzaEv (example_reply ''q1'' ''error''), TickEv 5]" example_later]
    example_subscribed_at example_later_run
  have "subscribedAt example_key 0 example_later" by blast
  with example_subscribe_run empty example_subscribed_at example_later_run show ?thesis
    by (intro conjI)
qed

subsection \<open>Calls of any reply handler\<close>

lemma dispatchReply_dispatched:
  "dispatchReply st s =
     (case dispatched st s of
        [] \<Rightarrow> s
      | (h, x) # _ \<Rightarrow>
          callHandler h st
            (s\<lparr>replyHandlers := cache_remove (case st_id st of Some i \<Rightarrow> i | None \<Rightarrow> [])
                                 (replyHandlers s)\<rparr>))"
  by (simp add: dispatchReply_def dispatched_def split: option.splits)

lemma dispatched_frame:
  "replyHandlers s1 = replyHandlers s \<Longrightarrow> clock s1 = clock s \<Longrightarrow> dispatched st s1 = dispatched st s"
  by (simp add: dispatched_def split: option.splits)

lemma dispatched_stored:
  "length (filter (\<lambda>x. fst x = h) (dispatched st s)) + stored h (dispatchReply st s) \<le> stored h s"
proof (cases "dispatched st s")
  case Nil
  then show ?thesis by (simp add: dispatchReply_dispatched)
next
  case (Cons p ps)
  then obtain i h' where hit: "st_id st = Some i" "i \<noteq> []"
    "cache_get (clock s) i (replyHandlers s) = Some h'" and d: "dispatched st s = [(h', st)]"
    by (auto simp add: dispatched_def split: option.splits if_splits)
  have eq: "dispatchReply st s =
              callHandler h' st (s\<lparr>replyHandlers := cache_remove i (replyHandlers s)\<rparr>)"
    by (rule dispatchReply_hit [OF hit])
  show ?thesis
  proof (cases "h' = h")
    case True
    from stored_remove_less [OF hit(3)] True show ?thesis by (simp add: d eq)
  next
    case False
    with stored_remove_le [of h i s] show ?thesis by (simp add: d eq)
  qed
qed

lemma dispatched_le_stored:
  "length (filter (\<lambda>x. fst x = h) (dispatched st s)) \<le> stored h s"
  using dispatched_stored [of h st s] by simp

lemma dispatched_calls:
  "replyCalls n (effects (dispatchReply st s)) =
     replyCalls n (effects s) @ map snd (filter (\<lambda>x. fst x = UserReply n) (dispatched st s))"
proof (cases "dispatched st s")
  case Nil
  then show ?thesis by (simp add: dispatchReply_dispatched)
next
  case (Cons p ps)
  then obtain i h' where hit: "st_id st = Some i" "i \<noteq> []"
    "cache_get (clock s) i (replyHandlers s) = Some h'" and d: "dispatched st s = [(h', st)]"
    by (auto simp add: dispatched_def split: option.splits if_splits)
  show ?thesis
    by (simp add: dispatchReply_hit [OF hit] d callHandler_calls)
qed

lemma stored_sendQuery:
  "stored h (sendQuery cfg q iq h' s) \<le> stored h s + (if h' = h then 1 else 0)"
  by (simp add: sendQuery_def Let_def stored_def cache_put_def length_filter_conj_le le_SucI)

lemma stored_subscribe:
  "stored h (subscribe cfg q nodeId f g s)
     \<le> stored h s + length (filter (\<lambda>x. snd x = h) (stepSent cfg (SubscribeEv q nodeId f g) s))"
proof (cases "subs s (subkeyOf cfg nodeId)")
  case None
  show ?thesis
    by (simp add: subscribe_absent [OF None] stepSent_def None stored_def cache_put_def
          length_filter_conj_le le_SucI)
next
  case (Some a)
  then show ?thesis by (simp add: subscribe_def Let_def stored_def)
qed

lemma expired_stored:
  "length (filter (\<lambda>x. fst x = h)
             (map (\<lambda>(k, h, t). (h, serviceUnavailable))
                (cache_expired (clock s + dt) (replyHandlers s))))
     + stored h (tick dt s) \<le> stored h s"
proof -
  let ?c = "replyHandlers s"
  let ?now = "clock s + dt"
  let ?P = "\<lambda>(k, v, t). t + ttl ?c \<le> ?now"
  let ?es = "filter ?P (centries ?c)"
  let ?H = "\<lambda>e. fst (snd e) = h"
  have cnt: "length (filter (\<lambda>x. fst x = h) (map (\<lambda>(k, h, t). (h, serviceUnavailable)) xs)) =
             length (filter ?H xs)" for xs :: "(string \<times> handler \<times> nat) list"
    by (induction xs) auto
  have rest: "length (filter ?H (filter (\<lambda>e. fst e \<notin> fst ` set ?es) (centries ?c)))
               \<le> length (filter ?H (filter (\<lambda>e. \<not> ?P e) (centries ?c)))"
    unfolding filter_filter
    by (rule length_filter_mono) force
  have "length (filter ?H ?es) + length (filter ?H (filter (\<lambda>e. \<not> ?P e) (centries ?c))) =
        length (filter ?H (centries ?c))"
    by (rule length_filter_split)
  with rest show ?thesis
    unfolding cnt
    by (simp add: tick_def Let_def cache_expired_def stored_def expireReplyHandlers_entries)
qed

lemma receiveStanza_parts:
  assumes "receiveStanza cfg st s = Inr s'"
  shows "\<exists>s1 s2. stanzaListener cfg st s = Inr s2 \<and> s2 = dispatchReply st s1
     \<and> replyHandlers s1 = replyHandlers s \<and> clock s1 = clock s \<and> nextRef s1 = nextRef s
     \<and> replyCalls n (effects s1) = replyCalls n (effects s)
     \<and> replyHandlers s' = replyHandlers s2 \<and> nextRef s' = nextRef s2
     \<and> replyCalls n (effects s') = replyCalls n (effects s2)"
proof -
  from assms obtain s2 where s2: "stanzaListener cfg st s = Inr s2"
    "runStanzaHandlers (stanzaHandlers s2) st s2 = Inr s'"
    by (auto simp add: receiveStanza_def split: sum.splits)
  from stanzaListener_cases [OF s2(1), of n] obtain s1 where s1: "s2 = dispatchReply st s1"
    "replyHandlers s1 = replyHandlers s" "replyCalls n (effects s1) = replyCalls n (effects s)"
    "clock s1 = clock s" "nextRef s1 = nextRef s"
    by blast
  from runStanzaHandlers_frame [OF s2(2), of n] s2(1) s1 show ?thesis by blast
qed

lemma stepInvoked_le_stored:
  "length (filter (\<lambda>x. fst x = h) (stepInvoked cfg e s)) \<le> stored h s"
proof (cases e)
  case (StanzaEv st)
  with dispatched_le_stored [of h st s] show ?thesis
    by (simp add: stepInvoked_def split: sum.splits)
next
  case (TickEv dt)
  with expired_stored [of h s dt] show ?thesis by (simp add: stepInvoked_def)
qed (simp_all add: stepInvoked_def)

lemma step_invoked_potential:
  assumes "step cfg e s = Inr s1"
  shows "length (filter (\<lambda>x. fst x = h) (stepInvoked cfg e s)) + stored h s1
           \<le> stored h s + length (filter (\<lambda>x. snd x = h) (stepSent cfg e s))"
proof (cases e)
  case (SendQueryEv q iq m)
  with assms have "s1 = sendQuery cfg q iq (UserReply m) s" by simp
  with stored_sendQuery [of h cfg q iq "UserReply m" s] show ?thesis
    by (auto simp add: SendQueryEv stepInvoked_def stepSent_def split: if_splits)
next
  case (SubscribeEv q nodeId a b)
  with assms have "s1 = subscribe cfg q nodeId a b s" by simp
  with stored_subscribe [of h cfg q nodeId a b s] show ?thesis
    by (simp add: SubscribeEv stepInvoked_def)
next
  case (StanzaEv st)
  with assms have r: "receiveStanza cfg st s = Inr s1" by simp
  from receiveStanza_parts [OF r, of 0] obtain t1 t2 where p:
    "stanzaListener cfg st s = Inr t2" "t2 = dispatchReply st t1"
    "replyHandlers t1 = replyHandlers s" "clock t1 = clock s"
    "replyHandlers s1 = replyHandlers t2"
    by blast
  have inv: "stepInvoked cfg e s = dispatched st t1"
    by (simp add: StanzaEv stepInvoked_def p(1) dispatched_frame [OF p(3) p(4)])
  from dispatched_stored [of h st t1] show ?thesis
    by (simp add: inv p(2) [symmetric] stored_def p(3) p(5))
next
  case (TickEv dt)
  with assms have "s1 = tick dt s" by simp
  with expired_stored [of h s dt] show ?thesis by (simp add: TickEv stepInvoked_def)
next
  case (OnStanzaEv m hh)
  with assms show ?thesis by (auto simp add: onStanza_def stored_def stepInvoked_def)
next
  case (ReplyToQueryEv iq)
  with assms show ?thesis by (auto simp add: replyToQuery_def stored_def stepInvoked_def)
next
  case EndEv
  with assms show ?thesis by (auto simp add: endSession_def stored_def stepInvoked_def)
qed

lemma invoked_potential:
  "length (filter (\<lambda>x. fst x = h) (invoked cfg evs s))
     \<le> stored h s + length (filter (\<lambda>x. snd x = h) (sent cfg evs s))"
proof (induction evs arbitrary: s)
  case Nil
  show ?case by simp
next
  case (Cons e evs)
  show ?case
  proof (cases "step cfg e s")
    case (Inl x)
    with stepInvoked_le_stored [of h cfg e s] show ?thesis by simp
  next
    case (Inr s1)
    from step_invoked_potential [OF Inr, of h] Cons.IH [of s1] show ?thesis
      by (simp add: Inr)
  qed
qed

lemma nextRef_step:
  assumes "step cfg e s = Inr s1"
  shows "nextRef s1 =
           (case e of
              SubscribeEv q nodeId f g \<Rightarrow>
                (case subs s (subkeyOf cfg nodeId) of
                   None \<Rightarrow> Suc (nextRef s) | Some _ \<Rightarrow> nextRef s)
            | _ \<Rightarrow> nextRef s)"
proof (cases e)
  case (SendQueryEv q iq m)
  with assms show ?thesis by (auto simp add: sendQuery_def Let_def)
next
  case (SubscribeEv q nodeId a b)
  with assms have s1: "s1 = subscribe cfg q nodeId a b s" by simp
  show ?thesis
  proof (cases "subs s (subkeyOf cfg nodeId)")
    case None
    show ?thesis by (simp add: s1 SubscribeEv None subscribe_absent [OF None])
  next
    case (Some x)
    then show ?thesis by (simp add: s1 SubscribeEv subscribe_def Let_def)
  qed
next
  case (StanzaEv st)
  with assms have r: "receiveStanza cfg st s = Inr s1" by simp
  from receiveStanza_parts [OF r, of 0] show ?thesis by (auto simp add: StanzaEv)
next
  case (TickEv dt)
  with assms show ?thesis by (auto simp add: tick_def Let_def)
next
  case (OnStanzaEv m hh)
  with assms show ?thesis by (auto simp add: onStanza_def)
next
  case (ReplyToQueryEv iq)
  with assms show ?thesis by (auto simp add: replyToQuery_def)
next
  case EndEv
  with assms show ?thesis by (auto simp add: endSession_def)
qed

lemma sent_closure_once:
  "length (filter (\<lambda>x. snd x = SubscribeReply k a) (sent cfg evs s))
     \<le> (if nextRef s \<le> a then 1 else 0)"
proof (induction evs arbitrary: s)
  case Nil
  show ?case by simp
next
  case (Cons e evs)
  show ?case
  proof (cases "step cfg e s")
    case (Inl x)
    then show ?thesis
      by (cases e) (auto simp add: stepSent_def split: option.splits)
  next
    case (Inr s1)
    note nr = nextRef_step [OF Inr]
    have st: "sent cfg (e # evs) s = stepSent cfg e s @ sent cfg evs s1" by (simp add: Inr)
    show ?thesis
    proof (cases e)
      case (SubscribeEv q nodeId f g)
      show ?thesis
      proof (cases "subs s (subkeyOf cfg nodeId)")
        case None
        from nr have "nextRef s1 = Suc (nextRef s)" by (simp add: SubscribeEv None)
        with Cons.IH [of s1] show ?thesis unfolding st
          by (auto simp add: SubscribeEv stepSent_def None split: if_splits)
      next
        case (Some x)
        from nr have "nextRef s1 = nextRef s" by (simp add: SubscribeEv Some)
        with Cons.IH [of s1] show ?thesis unfolding st
          by (simp add: SubscribeEv stepSent_def Some)
      qed
    next
      case (SendQueryEv q iq m)
      with nr Cons.IH [of s1] show ?thesis unfolding st by (simp add: stepSent_def)
    next
      case (StanzaEv x)
      with nr Cons.IH [of s1] show ?thesis unfolding st by (simp add: stepSent_def)
    next
      case (TickEv x)
      with nr Cons.IH [of s1] show ?thesis unfolding st by (simp add: stepSent_def)
    next
      case (OnStanzaEv x y)
      with nr Cons.IH [of s1] show ?thesis unfolding st by (simp add: stepSent_def)
    next
      case (ReplyToQueryEv x)
      with nr Cons.IH [of s1] show ?thesis unfolding st by (simp add: stepSent_def)
    next
      case EndEv
      with nr Cons.IH [of s1] show ?thesis unfolding st by (simp add: stepSent_def)
    qed
  qed
qed

lemma expired_calls_map:
  "map (\<lambda>_. x) (filter (\<lambda>e. fst (snd e) = h) es)
     = map snd (filter (\<lambda>y. fst y = h) (map (\<lambda>(k, h, t). (h, x)) es))"
  by (induction es) auto

lemma step_invoked_calls:
  assumes "step cfg e s = Inr s1"
  shows "replyCalls n (effects s1)
           = replyCalls n (effects s) @ map snd (filter (\<lambda>x. fst x = UserReply n) (stepInvoked cfg e s))"
proof (cases e)
  case (SendQueryEv q iq m)
  with assms show ?thesis by (auto simp add: sendQuery_def Let_def stepInvoked_def)
next
  case (SubscribeEv q nodeId a b)
  with assms have s1: "s1 = subscribe cfg q nodeId a b s" by simp
  show ?thesis
  proof (cases "subs s (subkeyOf cfg nodeId)")
    case None
    show ?thesis by (simp add: s1 SubscribeEv subscribe_absent [OF None] stepInvoked_def)
  next
    case (Some x)
    then show ?thesis
      by (simp add: s1 SubscribeEv subscribe_def Let_def stepInvoked_def
            replyCalls_map_onsub replyCalls_map_onerror split: if_splits)
  qed
next
  case (StanzaEv st)
  with assms have r: "receiveStanza cfg st s = Inr s1" by simp
  from receiveStanza_parts [OF r, of n] obtain t1 t2 where p:
    "stanzaListener cfg st s = Inr t2" "t2 = dispatchReply st t1"
    "replyHandlers t1 = replyHandlers s" "clock t1 = clock s"
    "replyCalls n (effects t1) = replyCalls n (effects s)"
    "replyCalls n (effects s1) = replyCalls n (effects t2)"
    by blast
  have inv: "stepInvoked cfg e s = dispatched st t1"
    by (simp add: StanzaEv stepInvoked_def p(1) dispatched_frame [OF p(3) p(4)])
  from dispatched_calls [of n st t1] show ?thesis
    by (simp add: inv p(2) [symmetric] p(5) p(6))
next
  case (TickEv dt)
  with assms have s1: "s1 = tick dt s" by simp
  show ?thesis
    by (simp add: s1 TickEv stepInvoked_def tick_def Let_def expireReplyHandlers_calls
          expired_calls_map)
next
  case (OnStanzaEv m hh)
  with assms show ?thesis by (auto simp add: onStanza_def stepInvoked_def)
next
  case (ReplyToQueryEv iq)
  with assms show ?thesis by (auto simp add: replyToQuery_def stepInvoked_def)
next
  case EndEv
  with assms show ?thesis by (auto simp add: endSession_def stepInvoked_def)
qed

lemma invoked_calls:
  "run cfg evs s = Inr s' \<Longrightarrow>
     replyCalls n (effects s')
       = replyCalls n (effects s) @ map snd (filter (\<lambda>x. fst x = UserReply n) (invoked cfg evs s))"
proof (induction evs arbitrary: s)
  case Nil
  then show ?case by simp
next
  case (Cons e evs)
  from Cons.prems obtain s1 where s1: "step cfg e s = Inr s1" "run cfg evs s1 = Inr s'"
    by (auto split: sum.splits)
  from Cons.IH [OF s1(2)] step_invoked_calls [OF s1(1), of n] show ?case
    by (simp add: s1(1))
qed

lemma dispatched_mem:
  assumes "(h, st) \<in> set (dispatched x s)"
  shows "st = x \<and> (\<exists>q. st_id x = Some q \<and> q \<noteq> []
           \<and> cache_get (clock s) q (replyHandlers s) = Some h)"
proof (cases "st_id x")
  case None
  with assms show ?thesis by (simp add: dispatched_def)
next
  case (Some q)
  show ?thesis
  proof (cases "q = []")
    case True
    with assms Some show ?thesis by (simp add: dispatched_def)
  next
    case False
    show ?thesis
    proof (cases "cache_get (clock s) q (replyHandlers s)")
      case None
      with assms Some False show ?thesis by (simp add: dispatched_def)
    next
      case (Some h')
      with assms \<open>st_id x = Some q\<close> False show ?thesis by (simp add: dispatched_def)
    qed
  qed
qed

lemma stepInvoked_origin:
  assumes "(h, st) \<in> set (stepInvoked cfg e s)"
  shows "st = serviceUnavailable
       \<or> (e = StanzaEv st \<and> (\<exists>q t. st_id st = Some q \<and> (q, h, t) \<in> set (centries (replyHandlers s))))"
proof (cases e)
  case (StanzaEv x)
  with assms have d: "(h, st) \<in> set (dispatched x s)"
    by (simp add: stepInvoked_def split: sum.splits)
  from dispatched_mem [OF this] obtain q where q: "st_id x = Some q" "cache_get (clock s) q (replyHandlers s) = Some h"
    "st = x"
    by blast
  from cache_get_SomeD [OF q(2)] q(1) q(3) StanzaEv show ?thesis by blast
next
  case (TickEv dt)
  with assms show ?thesis by (auto simp add: stepInvoked_def)
qed (use assms in \<open>simp_all add: stepInvoked_def\<close>)

lemma step_entries:
  assumes "step cfg e s = Inr s1" and "x \<in> set (centries (replyHandlers s1))"
  shows "x \<in> set (centries (replyHandlers s)) \<or> (fst x, fst (snd x)) \<in> set (stepSent cfg e s)"
proof (cases e)
  case (SendQueryEv q iq m)
  with assms show ?thesis
    by (auto simp add: sendQuery_def Let_def stepSent_def cache_put_def)
next
  case (SubscribeEv q nodeId a b)
  with assms have s1: "s1 = subscribe cfg q nodeId a b s" by simp
  show ?thesis
  proof (cases "subs s (subkeyOf cfg nodeId)")
    case None
    with assms(2) show ?thesis
      by (auto simp add: s1 SubscribeEv subscribe_absent [OF None] stepSent_def cache_put_def)
  next
    case (Some y)
    with assms(2) show ?thesis
      by (auto simp add: s1 subscribe_def Let_def split: if_split_asm)
  qed
next
  case (StanzaEv st)
  with assms have r: "receiveStanza cfg st s = Inr s1" by simp
  from receiveStanza_parts [OF r, of 0] obtain t1 t2 where p:
    "t2 = dispatchReply st t1" "replyHandlers t1 = replyHandlers s"
    "replyHandlers s1 = replyHandlers t2"
    by blast
  from dispatchReply_cases [of st t1] assms(2) show ?thesis
    by (auto simp add: p cache_remove_def)
next
  case (TickEv dt)
  with assms show ?thesis
    by (auto simp add: tick_def Let_def expireReplyHandlers_entries)
next
  case (OnStanzaEv m hh)
  with assms show ?thesis by (auto simp add: onStanza_def)
next
  case (ReplyToQueryEv iq)
  with assms show ?thesis by (auto simp add: replyToQuery_def)
next
  case EndEv
  with assms show ?thesis by (auto simp add: endSession_def)
qed

lemma inbound_Cons_subset: "set (inbound evs) \<subseteq> set (inbound (e # evs))"
  by (cases e) auto

lemma invoked_origin:
  assumes "\<And>x. x \<in> set (centries (replyHandlers s)) \<Longrightarrow> (fst x, fst (snd x)) \<in> P"
      and "(h, st) \<in> set (invoked cfg evs s)"
  shows "st = serviceUnavailable
       \<or> (st \<in> set (inbound evs)
          \<and> (\<exists>q. ((q, h) \<in> P \<or> (q, h) \<in> set (sent cfg evs s)) \<and> st_id st = Some q))"
  using assms
proof (induction evs arbitrary: s P)
  case Nil
  then show ?case by simp
next
  case (Cons e evs)
  have "(h, st) \<in> set (stepInvoked cfg e s)
      \<or> (\<exists>s1. step cfg e s = Inr s1 \<and> (h, st) \<in> set (invoked cfg evs s1))"
  proof (cases "step cfg e s")
    case (Inl x)
    with Cons.prems(2) show ?thesis by simp
  next
    case (Inr s1)
    with Cons.prems(2) show ?thesis by simp
  qed
  then consider (now) "(h, st) \<in> set (stepInvoked cfg e s)"
    | (later) s1 where "step cfg e s = Inr s1" "(h, st) \<in> set (invoked cfg evs s1)"
    by blast
  then show ?case
  proof cases
    case now
    from stepInvoked_origin [OF now] show ?thesis
    proof
      assume "st = serviceUnavailable"
      then show ?thesis ..
    next
      assume "e = StanzaEv st
        \<and> (\<exists>q t. st_id st = Some q \<and> (q, h, t) \<in> set (centries (replyHandlers s)))"
      then obtain q t where e: "e = StanzaEv st" and q: "st_id st = Some q"
        "(q, h, t) \<in> set (centries (replyHandlers s))"
        by blast
      from Cons.prems(1) [OF q(2)] have "(q, h) \<in> P" by simp
      with q(1) e show ?thesis by auto
    qed
  next
    case later
    let ?P = "P \<union> set (stepSent cfg e s)"
    have "(fst x, fst (snd x)) \<in> ?P" if "x \<in> set (centries (replyHandlers s1))" for x
      using step_entries [OF later(1) that] Cons.prems(1) [of x] by blast
    from Cons.IH [OF this later(2)]
    have "st = serviceUnavailable
       \<or> (st \<in> set (inbound evs)
          \<and> (\<exists>q. ((q, h) \<in> ?P \<or> (q, h) \<in> set (sent cfg evs s1)) \<and> st_id st = Some q))"
      by blast
    then show ?thesis
    proof
      assume "st = serviceUnavailable"
      then show ?thesis ..
    next
      assume a: "st \<in> set (inbound evs)
          \<and> (\<exists>q. ((q, h) \<in> ?P \<or> (q, h) \<in> set (sent cfg evs s1)) \<and> st_id st = Some q)"
      then have "st \<in> set (inbound (e # evs))" using inbound_Cons_subset [of evs e] by blast
      moreover from a have "\<exists>q. ((q, h) \<in> P \<or> (q, h) \<in> set (sent cfg (e # evs) s))
          \<and> st_id st = Some q"
        by (auto simp add: later(1))
      ultimately show ?thesis by blast
    qed
  qed
qed

lemma foldl_callHandler_commute:
  "foldl (\<lambda>s x. callHandler (fst x) (snd x) s) (s\<lparr>replyHandlers := R\<rparr>) xs
     = (foldl (\<lambda>s x. callHandler (fst x) (snd x) s) s xs)\<lparr>replyHandlers := R\<rparr>"
  by (induction xs arbitrary: s) (simp_all add: callHandler_commute)

lemma expire_as_calls:
  "expireReplyHandlers es s =
     (foldl (\<lambda>s x. callHandler (fst x) (snd x) s) s
        (map (\<lambda>(k, h, t). (h, serviceUnavailable)) es))
     \<lparr>replyHandlers := replyHandlers (expireReplyHandlers es s)\<rparr>"
proof (induction es arbitrary: s)
  case Nil
  show ?case by simp
next
  case (Cons e es)
  obtain k h t where e: "e = (k, h, t)" by (cases e)
  let ?s1 = "(callHandler h serviceUnavailable s)
               \<lparr>replyHandlers := cache_remove k (replyHandlers (callHandler h serviceUnavailable s))\<rparr>"
  have ex: "expireReplyHandlers (e # es) s = expireReplyHandlers es ?s1"
    by (simp add: e replyHandlers_onexpired_def Let_def)
  note ih = Cons.IH [of ?s1]
  show ?case
    unfolding ex
    by (subst ih) (simp add: e foldl_callHandler_commute)
qed

lemma tick_as_calls:
  "tick dt s =
     (foldl (\<lambda>s x. callHandler (fst x) (snd x) s) (s\<lparr>clock := clock s + dt\<rparr>)
        (stepInvoked cfg (TickEv dt) s))
     \<lparr>replyHandlers := replyHandlers (tick dt s), subsCache := subsCache (tick dt s)\<rparr>"
proof -
  let ?s1 = "s\<lparr>clock := clock s + dt\<rparr>"
  let ?es = "cache_expired (clock s + dt) (replyHandlers s)"
  have t: "tick dt s = (expireReplyHandlers ?es ?s1)\<lparr>subsCache := subsCache (tick dt s)\<rparr>"
    by (simp add: tick_def Let_def)
  have r: "replyHandlers (tick dt s) = replyHandlers (expireReplyHandlers ?es ?s1)"
    by (simp add: tick_def Let_def)
  show ?thesis
    by (subst t, subst expire_as_calls) (simp add: stepInvoked_def r)
qed

subsection \<open>A reply handler is called at most once\<close>

lemma timeout_removes:
  assumes mem: "(q, h, t) \<in> set (centries (replyHandlers s))"
      and late: "t + ttl (replyHandlers s) \<le> clock s + dt"
  shows "(h, serviceUnavailable) \<in> set (stepInvoked cfg (TickEv dt) s)"
    and "cache_get now q (replyHandlers (tick dt s)) = None"
proof -
  let ?es = "cache_expired (clock s + dt) (replyHandlers s)"
  have in_es: "(q, h, t) \<in> set ?es"
    using mem late by (simp add: cache_expired_def)
  then show "(h, serviceUnavailable) \<in> set (stepInvoked cfg (TickEv dt) s)"
    by (force simp add: stepInvoked_def)
  have "q \<in> fst ` set ?es" using in_es by force
  then have "find (\<lambda>e. fst e = q)
               (filter (\<lambda>e. fst e \<notin> fst ` set ?es) (centries (replyHandlers s))) = None"
    by (auto simp add: find_None_iff)
  then show "cache_get now q (replyHandlers (tick dt s)) = None"
    by (simp add: tick_def Let_def cache_get_def expireReplyHandlers_entries)
qed

lemma reply_fires_handler:
  assumes hit: "cache_get (clock s0) q (replyHandlers s0) = Some h"
      and q: "q \<noteq> []" and id: "st_id st = Some q"
  shows "stepInvoked cfg (StanzaEv st) s0 =
           (case stanzaListener cfg st s0 of Inl _ \<Rightarrow> [] | Inr _ \<Rightarrow> [(h, st)])"
    and "stanzaListener cfg st s0 = Inr s' \<Longrightarrow>
           \<exists>s1. replyHandlers s1 = replyHandlers s0
              \<and> s' = callHandler h st (s1\<lparr>replyHandlers := cache_remove q (replyHandlers s1)\<rparr>)"
    and "stanzaListener cfg st s0 = Inr s' \<Longrightarrow> cache_get t q (replyHandlers s') = None"
proof -
  show "stepInvoked cfg (StanzaEv st) s0 =
           (case stanzaListener cfg st s0 of Inl _ \<Rightarrow> [] | Inr _ \<Rightarrow> [(h, st)])"
    by (simp add: stepInvoked_def dispatched_def hit q id split: sum.splits)
  assume run: "stanzaListener cfg st s0 = Inr s'"
  from stanzaListener_cases [OF run, of 0] obtain s1 where s1: "s' = dispatchReply st s1"
    "replyHandlers s1 = replyHandlers s0" "clock s1 = clock s0"
    by blast
  from hit have hit1: "cache_get (clock s1) q (replyHandlers s1) = Some h"
    by (simp add: s1)
  have eq: "s' = callHandler h st (s1\<lparr>replyHandlers := cache_remove q (replyHandlers s1)\<rparr>)"
    unfolding s1(1) by (rule dispatchReply_hit [OF id q hit1])
  from s1(2) eq show "\<exists>s1. replyHandlers s1 = replyHandlers s0
              \<and> s' = callHandler h st (s1\<lparr>replyHandlers := cache_remove q (replyHandlers s1)\<rparr>)"
    by blast
  show "cache_get t q (replyHandlers s') = None"
    by (simp add: eq cache_get_remove_same)
qed

text \<open>
  C1. Every reply handler that \<open>sendQuery\<close> stores, the caller's callback as well as
  the closure that \<open>subscribe\<close> passes, is called at most as often as it was passed
  to \<open>sendQuery\<close>, in every run of a session from its creation, also one that a
  throwing listener ends; the closure of one call of \<open>subscribe\<close> is passed once, so
  it is called at most once, and so is the callback of one query. Each call has as
  its argument either the synthesized stanza, which is an \<open>iq\<close> of type error without
  an id that holds \<open>error type='cancel'\<close> with \<open>service-unavailable\<close>, or an inbound
  stanza whose id is a key under which that handler was sent; for a run that ends
  normally the calls of callback \<open>n\<close> recorded by the session are exactly these calls.
  While a handler is stored under \<open>q\<close>, the listener, whenever it returns for a
  stanza with id \<open>q\<close> (as it does for every stanza that is not a message), has
  removed the entry and then called that one handler with the stanza, after which no
  stanza finds a handler under \<open>q\<close>. When an entry has outlived the time to live as
  the clock advances, its handler is called with the synthesized error and the entry
  is gone; the state after the clock advanced is the one that these calls produce.
\<close>

theorem reply_handler_called_at_most_once:
  "(\<forall>h. length (filter (\<lambda>x. fst x = h) (invoked cfg evs (Session cfg i j now)))
          \<le> length (filter (\<lambda>x. snd x = h) (sent cfg evs (Session cfg i j now))))
   \<and> (\<forall>k a. length (filter (\<lambda>x. snd x = SubscribeReply k a) (sent cfg evs (Session cfg i j now))) \<le> 1
          \<and> length (filter (\<lambda>x. fst x = SubscribeReply k a)
                      (invoked cfg evs (Session cfg i j now))) \<le> 1)
   \<and> (\<forall>h st. (h, st) \<in> set (invoked cfg evs (Session cfg i j now)) \<longrightarrow>
          st = \<lparr>st_name = ''iq'', st_id = None, st_type = Some ''error'', st_from = None,
                st_to = None, st_payload = ErrorElem ''cancel'' ''service-unavailable''\<rparr>
          \<or> (st \<in> set (inbound evs)
              \<and> (\<exists>q. (q, h) \<in> set (sent cfg evs (Session cfg i j now)) \<and> st_id st = Some q)))
   \<and> (\<forall>s. run cfg evs (Session cfg i j now) = Inr s \<longrightarrow>
          replyCalls n (effects s) =
            map snd (filter (\<lambda>x. fst x = UserReply n) (invoked cfg evs (Session cfg i j now)))
          \<and> length (replyCalls n (effects s)) \<le> length (queryIds n evs)
          \<and> (length (queryIds n evs) \<le> 1 \<longrightarrow> length (replyCalls n (effects s)) \<le> 1)
          \<and> (\<forall>st \<in> set (replyCalls n (effects s)).
                st = \<lparr>st_name = ''iq'', st_id = None, st_type = Some ''error'', st_from = None,
                      st_to = None, st_payload = ErrorElem ''cancel'' ''service-unavailable''\<rparr>
                \<or> (st \<in> set (inbound evs) \<and> (\<exists>q \<in> set (queryIds n evs). st_id st = Some q))))
   \<and> (\<forall>s0 q h st. cache_get (clock s0) q (replyHandlers s0) = Some h
            \<and> q \<noteq> [] \<and> st_id st = Some q \<longrightarrow>
          stepInvoked cfg (StanzaEv st) s0 =
            (case stanzaListener cfg st s0 of Inl _ \<Rightarrow> [] | Inr _ \<Rightarrow> [(h, st)])
          \<and> (st_name st \<noteq> ''message'' \<longrightarrow> (\<exists>s'. stanzaListener cfg st s0 = Inr s'))
          \<and> (\<forall>s'. stanzaListener cfg st s0 = Inr s' \<longrightarrow>
                (\<exists>s1. replyHandlers s1 = replyHandlers s0
                   \<and> s' = callHandler h st
                            (s1\<lparr>replyHandlers := cache_remove q (replyHandlers s1)\<rparr>))
                \<and> (\<forall>t. cache_get t q (replyHandlers s') = None)
                \<and> (h = UserReply n \<longrightarrow>
                     replyCalls n (effects s') = replyCalls n (effects s0) @ [st])))
   \<and> (\<forall>s0 q h t dt. (q, h, t) \<in> set (centries (replyHandlers s0))
            \<and> t + ttl (replyHandlers s0) \<le> clock s0 + dt \<longrightarrow>
          (h, \<lparr>st_name = ''iq'', st_id = None, st_type = Some ''error'', st_from = None,
               st_to = None, st_payload = ErrorElem ''cancel'' ''service-unavailable''\<rparr>)
            \<in> set (stepInvoked cfg (TickEv dt) s0)
          \<and> (\<forall>t'. cache_get t' q (replyHandlers (tick dt s0)) = None)
          \<and> (h = UserReply n \<longrightarrow>
               \<lparr>st_name = ''iq'', st_id = None, st_type = Some ''error'', st_from = None,
                st_to = None, st_payload = ErrorElem ''cancel'' ''service-unavailable''\<rparr>
                 \<in> set (replyCalls n (effects (tick dt s0)))))
   \<and> (\<forall>s0 dt. tick dt s0 =
          (foldl (\<lambda>s x. callHandler (fst x) (snd x) s) (s0\<lparr>clock := clock s0 + dt\<rparr>)
             (stepInvoked cfg (TickEv dt) s0))
          \<lparr>replyHandlers := replyHandlers (tick dt s0), subsCache := subsCache (tick dt s0)\<rparr>)"
  (is "?A \<and> ?B \<and> ?C \<and> ?D \<and> ?E \<and> ?F \<and> ?G")
proof -
  let ?S = "Session cfg i j now"
  let ?err = "\<lparr>st_name = ''iq'', st_id = None, st_type = Some ''error'', st_from = None,
               st_to = None, st_payload = ErrorElem ''cancel'' ''service-unavailable''\<rparr>"
  have err: "serviceUnavailable = ?err" by (simp add: serviceUnavailable_def)
  have bound: "length (filter (\<lambda>x. fst x = h) (invoked cfg evs ?S))
          \<le> length (filter (\<lambda>x. snd x = h) (sent cfg evs ?S))" for h
    using invoked_potential [of h cfg evs ?S] by (simp add: stored_def)
  then have A: ?A ..
  have once: "length (filter (\<lambda>x. snd x = SubscribeReply k a) (sent cfg evs ?S)) \<le> 1" for k a
    using sent_closure_once [of k a cfg evs ?S] by (simp split: if_splits)
  have B: ?B
  proof (intro allI conjI)
    fix k a
    show "length (filter (\<lambda>x. snd x = SubscribeReply k a) (sent cfg evs ?S)) \<le> 1"
      by (rule once)
    from bound [of "SubscribeReply k a"] once [of k a]
    show "length (filter (\<lambda>x. fst x = SubscribeReply k a) (invoked cfg evs ?S)) \<le> 1"
      by (rule order_trans)
  qed
  have C: ?C
  proof (intro allI impI)
    fix h st
    assume m: "(h, st) \<in> set (invoked cfg evs ?S)"
    have "(fst x, fst (snd x)) \<in> {}" if "x \<in> set (centries (replyHandlers ?S))" for x
      using that by simp
    from invoked_origin [of ?S "{}", OF this m]
    show "st = ?err
          \<or> (st \<in> set (inbound evs)
              \<and> (\<exists>q. (q, h) \<in> set (sent cfg evs ?S) \<and> st_id st = Some q))"
      unfolding err by simp
  qed
  have D: ?D
  proof (intro allI impI)
    fix s
    assume run: "run cfg evs ?S = Inr s"
    have calls: "replyCalls n (effects s) =
            map snd (filter (\<lambda>x. fst x = UserReply n) (invoked cfg evs ?S))"
      using invoked_calls [OF run, of n] by simp
    have le: "length (replyCalls n (effects s)) \<le> length (queryIds n evs)"
      using run_potential [OF run, of n] by (simp add: stored_def)
    then have one: "length (queryIds n evs) \<le> 1 \<longrightarrow> length (replyCalls n (effects s)) \<le> 1"
      by simp
    have "tracked n [] ?S" by (simp add: tracked_def)
    from tracked_run [OF run this]
    have args: "\<forall>st \<in> set (replyCalls n (effects s)).
                st = ?err
                \<or> (st \<in> set (inbound evs) \<and> (\<exists>q \<in> set (queryIds n evs). st_id st = Some q))"
      unfolding tracked_def fromQuery_def err by simp
    from calls le one args
    show "replyCalls n (effects s) =
            map snd (filter (\<lambda>x. fst x = UserReply n) (invoked cfg evs ?S))
          \<and> length (replyCalls n (effects s)) \<le> length (queryIds n evs)
          \<and> (length (queryIds n evs) \<le> 1 \<longrightarrow> length (replyCalls n (effects s)) \<le> 1)
          \<and> (\<forall>st \<in> set (replyCalls n (effects s)).
                st = ?err
                \<or> (st \<in> set (inbound evs) \<and> (\<exists>q \<in> set (queryIds n evs). st_id st = Some q)))"
      by (intro conjI)
  qed
  have E: ?E
  proof (intro allI impI, elim conjE)
    fix s0 :: session and q :: string and h :: handler and st :: stanza
    assume hit: "cache_get (clock s0) q (replyHandlers s0) = Some h"
      and q: "q \<noteq> []" and id: "st_id st = Some q"
    note r = reply_fires_handler [OF hit q id]
    have e1: "st_name st \<noteq> ''message'' \<longrightarrow> (\<exists>s'. stanzaListener cfg st s0 = Inr s')"
      by (simp add: stanzaListener_other)
    have e2: "\<forall>s'. stanzaListener cfg st s0 = Inr s' \<longrightarrow>
                (\<exists>s1. replyHandlers s1 = replyHandlers s0
                   \<and> s' = callHandler h st
                            (s1\<lparr>replyHandlers := cache_remove q (replyHandlers s1)\<rparr>))
                \<and> (\<forall>t. cache_get t q (replyHandlers s') = None)
                \<and> (h = UserReply n \<longrightarrow>
                     replyCalls n (effects s') = replyCalls n (effects s0) @ [st])"
    proof (intro allI impI conjI)
      fix s' t
      assume run: "stanzaListener cfg st s0 = Inr s'"
      from r(2) [OF run] show "\<exists>s1. replyHandlers s1 = replyHandlers s0
                   \<and> s' = callHandler h st
                            (s1\<lparr>replyHandlers := cache_remove q (replyHandlers s1)\<rparr>)" .
      from r(3) [OF run] show "cache_get t q (replyHandlers s') = None" .
    next
      fix s'
      assume run: "stanzaListener cfg st s0 = Inr s'" and h: "h = UserReply n"
      from hit h have "cache_get (clock s0) q (replyHandlers s0) = Some (UserReply n)" by simp
      from reply_fires_any(1) [OF this q id run]
      show "replyCalls n (effects s') = replyCalls n (effects s0) @ [st]" .
    qed
    from r(1) [of cfg] e1 e2
    show "stepInvoked cfg (StanzaEv st) s0 =
            (case stanzaListener cfg st s0 of Inl _ \<Rightarrow> [] | Inr _ \<Rightarrow> [(h, st)])
          \<and> (st_name st \<noteq> ''message'' \<longrightarrow> (\<exists>s'. stanzaListener cfg st s0 = Inr s'))
          \<and> (\<forall>s'. stanzaListener cfg st s0 = Inr s' \<longrightarrow>
                (\<exists>s1. replyHandlers s1 = replyHandlers s0
                   \<and> s' = callHandler h st
                            (s1\<lparr>replyHandlers := cache_remove q (replyHandlers s1)\<rparr>))
                \<and> (\<forall>t. cache_get t q (replyHandlers s') = None)
                \<and> (h = UserReply n \<longrightarrow>
                     replyCalls n (effects s') = replyCalls n (effects s0) @ [st]))"
      by (intro conjI)
  qed
  have F: ?F
  proof (intro allI impI conjI, goal_cases)
    case (1 s0 q h t dt)
    then have m: "(q, h, t) \<in> set (centries (replyHandlers s0))"
      "t + ttl (replyHandlers s0) \<le> clock s0 + dt"
      by blast+
    from timeout_removes(1) [OF m, of cfg] show ?case unfolding err .
  next
    case (2 s0 q h t dt t')
    then have m: "(q, h, t) \<in> set (centries (replyHandlers s0))"
      "t + ttl (replyHandlers s0) \<le> clock s0 + dt"
      by blast+
    from timeout_removes(2) [OF m] show ?case .
  next
    case (3 s0 q h t dt)
    then have m: "(q, UserReply n, t) \<in> set (centries (replyHandlers s0))"
      "t + ttl (replyHandlers s0) \<le> clock s0 + dt"
      by blast+
    from timeout_fires_handler(1) [OF m] show ?case unfolding err .
  qed
  have G: ?G
    by (intro allI) (rule tick_as_calls)
  from A B C D E F G show ?thesis by (intro conjI)
qed

lemma example_invoked:
  "invoked example_config example_run (Session example_config (Some ''sid'') ''a@d'' 0) =
     [(UserReply 5, example_reply ''q1'' ''result'')]"
  by (simp add: example_run_def Session_def stepInvoked_def dispatched_def sendQuery_def
        receiveStanza_def stanzaListener_def
        dispatchReply_def cache_get_def cache_put_def cache_remove_def callHandler_def
        tick_def cache_expired_def new_cache_def example_reply_def example_config_def
        emit_def Let_def example_query_def)

lemma example_sent:
  "sent example_config example_run (Session example_config (Some ''sid'') ''a@d'' 0) =
     [(''q1'', UserReply 5)]"
  by (simp add: example_run_def stepSent_def split: sum.splits)

lemma example_subscribed_handlers:
  "replyHandlers example_subscribed =
     cache_remove ''q1'' (cache_put 0 ''q1'' (SubscribeReply example_key 0) (new_cache 60))"
  "clock example_subscribed = 0"
proof -
  have hit: "cache_get (clock example_subscribing) ''q1'' (replyHandlers example_subscribing) =
       Some (SubscribeReply example_key 0)"
    by (simp add: example_subscribing_fields cache_get_put_same)
  have eq: "example_subscribed =
      callHandler (SubscribeReply example_key 0) (example_reply ''q1'' ''result'')
        (example_subscribing
           \<lparr>replyHandlers := cache_remove ''q1'' (replyHandlers example_subscribing)\<rparr>)"
    unfolding example_subscribed_def by (rule dispatchReply_hit [OF _ _ hit]) simp_all
  show "replyHandlers example_subscribed =
     cache_remove ''q1'' (cache_put 0 ''q1'' (SubscribeReply example_key 0) (new_cache 60))"
    by (simp add: eq example_subscribing_fields)
  show "clock example_subscribed = 0"
    by (simp add: eq example_subscribing_fields)
qed

lemma example_subscribe_invoked:
  "invoked example_config example_subscribe_events
     (Session example_config (Some ''sid'') ''a@d'' 0) =
     [(SubscribeReply example_key 0, example_reply ''q1'' ''result'')]"
proof -
  let ?r = "example_reply ''q1'' ''result''"
  have a: "invoked example_config example_subscribe_events
             (Session example_config (Some ''sid'') ''a@d'' 0) =
           invoked example_config [StanzaEv ?r, StanzaEv ?r] example_subscribing"
    unfolding example_subscribe_events_def example_subscribing_def example_session_def
    by (simp add: stepInvoked_def)
  have b: "stepInvoked example_config (StanzaEv ?r) example_subscribing =
             [(SubscribeReply example_key 0, ?r)]"
    by (simp add: stepInvoked_def stanzaListener_iq dispatched_def example_subscribing_fields
          cache_get_put_same)
  have c: "step example_config (StanzaEv ?r) example_subscribing = Inr example_subscribed"
    by (simp add: receiveStanza_iq example_subscribing_handlers example_subscribed_def)
  have d: "stepInvoked example_config (StanzaEv ?r) example_subscribed = []"
    by (simp add: stepInvoked_def stanzaListener_iq dispatched_def example_subscribed_handlers
          cache_get_remove_same)
  show ?thesis
    unfolding a by (simp only: invoked.simps b c d sum.case append.simps split: sum.splits) simp
qed

lemma example_subscribe_sent:
  "sent example_config example_subscribe_events
     (Session example_config (Some ''sid'') ''a@d'' 0) =
     [(''q1'', SubscribeReply example_key 0)]"
  by (simp add: example_subscribe_events_def stepSent_def split: sum.splits)

theorem reply_handler_called_at_most_once_witness:
  "run example_config example_run (Session example_config (Some ''sid'') ''a@d'' 0) =
     Inr example_final
   \<and> invoked example_config example_run (Session example_config (Some ''sid'') ''a@d'' 0) =
       [(UserReply 5, example_reply ''q1'' ''result'')]
   \<and> sent example_config example_run (Session example_config (Some ''sid'') ''a@d'' 0) =
       [(''q1'', UserReply 5)]
   \<and> length (filter (\<lambda>x. fst x = UserReply 5)
         (invoked example_config example_run
            (Session example_config (Some ''sid'') ''a@d'' 0))) \<le> 1
   \<and> example_reply ''q1'' ''result'' \<in> set (inbound example_run)
   \<and> length (queryIds 5 example_run) \<le> 1
   \<and> replyCalls 5 (effects example_final) = [example_reply ''q1'' ''result'']
   \<and> length (replyCalls 5 (effects example_final)) \<le> 1
   \<and> invoked example_config example_subscribe_events
         (Session example_config (Some ''sid'') ''a@d'' 0) =
       [(SubscribeReply example_key 0, example_reply ''q1'' ''result'')]
   \<and> sent example_config example_subscribe_events
         (Session example_config (Some ''sid'') ''a@d'' 0) =
       [(''q1'', SubscribeReply example_key 0)]
   \<and> length (filter (\<lambda>x. fst x = SubscribeReply example_key 0)
         (invoked example_config example_subscribe_events
            (Session example_config (Some ''sid'') ''a@d'' 0))) \<le> 1
   \<and> cache_get (clock example_querying) ''q1'' (replyHandlers example_querying) =
       Some (UserReply 5)
   \<and> st_name (example_reply ''q1'' ''result'') \<noteq> ''message''
   \<and> (\<exists>s'. stanzaListener example_config (example_reply ''q1'' ''result'') example_querying =
               Inr s'
          \<and> stepInvoked example_config (StanzaEv (example_reply ''q1'' ''result''))
                example_querying = [(UserReply 5, example_reply ''q1'' ''result'')]
          \<and> replyCalls 5 (effects s') = [example_reply ''q1'' ''result'']
          \<and> cache_get 0 ''q1'' (replyHandlers s') = None)
   \<and> cache_get (clock example_subscribing) ''q1'' (replyHandlers example_subscribing) =
       Some (SubscribeReply example_key 0)
   \<and> (\<exists>s'. stanzaListener example_config (example_reply ''q1'' ''result'') example_subscribing =
               Inr s'
          \<and> stepInvoked example_config (StanzaEv (example_reply ''q1'' ''result''))
                example_subscribing =
              [(SubscribeReply example_key 0, example_reply ''q1'' ''result'')]
          \<and> cache_get 0 ''q1'' (replyHandlers s') = None)
   \<and> (''q1'', UserReply 5, 0) \<in> set (centries (replyHandlers example_querying))
   \<and> 0 + ttl (replyHandlers example_querying) \<le> clock example_querying + 60
   \<and> (UserReply 5,
        \<lparr>st_name = ''iq'', st_id = None, st_type = Some ''error'', st_from = None,
         st_to = None, st_payload = ErrorElem ''cancel'' ''service-unavailable''\<rparr>)
         \<in> set (stepInvoked example_config (TickEv 60) example_querying)
   \<and> \<lparr>st_name = ''iq'', st_id = None, st_type = Some ''error'', st_from = None,
       st_to = None, st_payload = ErrorElem ''cancel'' ''service-unavailable''\<rparr>
         \<in> set (replyCalls 5 (effects (tick 60 example_querying)))
   \<and> cache_get 60 ''q1'' (replyHandlers (tick 60 example_querying)) = None
   \<and> (''q1'', SubscribeReply example_key 0, 0)
         \<in> set (centries (replyHandlers example_subscribing))
   \<and> 0 + ttl (replyHandlers example_subscribing) \<le> clock example_subscribing + 60
   \<and> (SubscribeReply example_key 0,
        \<lparr>st_name = ''iq'', st_id = None, st_type = Some ''error'', st_from = None,
         st_to = None, st_payload = ErrorElem ''cancel'' ''service-unavailable''\<rparr>)
         \<in> set (stepInvoked example_config (TickEv 60) example_subscribing)
   \<and> cache_get 60 ''q1'' (replyHandlers (tick 60 example_subscribing)) = None"
proof -
  let ?S = "Session example_config (Some ''sid'') ''a@d'' 0"
  let ?r = "example_reply ''q1'' ''result''"
  let ?err = "\<lparr>st_name = ''iq'', st_id = None, st_type = Some ''error'', st_from = None,
               st_to = None, st_payload = ErrorElem ''cancel'' ''service-unavailable''\<rparr>"
  note t = reply_handler_called_at_most_once [where cfg = example_config and evs = example_run
                     and i = "Some ''sid''" and j = "''a@d''" and now = 0 and n = 5]
  note u = reply_handler_called_at_most_once [where cfg = example_config and evs = example_subscribe_events
                     and i = "Some ''sid''" and j = "''a@d''" and now = 0 and n = 5]
  note tA = t [THEN conjunct1]
  note tD = t [THEN conjunct2, THEN conjunct2, THEN conjunct2, THEN conjunct1, rule_format,
               OF example_run_result]
  note tE = t [THEN conjunct2, THEN conjunct2, THEN conjunct2, THEN conjunct2, THEN conjunct1]
  note tF = t [THEN conjunct2, THEN conjunct2, THEN conjunct2, THEN conjunct2, THEN conjunct2,
               THEN conjunct1]
  note uB = u [THEN conjunct2, THEN conjunct1]
  have once: "length (filter (\<lambda>x. fst x = UserReply 5) (invoked example_config example_run ?S))
               \<le> 1"
    using tA [THEN spec, of "UserReply 5"] by (simp add: example_sent)
  have inb: "?r \<in> set (inbound example_run)" by (simp add: example_run_def)
  have q: "length (queryIds 5 example_run) \<le> 1"
    by (simp add: example_run_def)
  from tD have calls: "replyCalls 5 (effects example_final) = [?r]"
    by (simp add: example_invoked)
  from tD q have once': "length (replyCalls 5 (effects example_final)) \<le> 1" by blast
  from uB [THEN spec, THEN spec, of example_key 0]
  have conce: "length (filter (\<lambda>x. fst x = SubscribeReply example_key 0)
         (invoked example_config example_subscribe_events ?S)) \<le> 1"
    by (rule conjunct2)
  have b: "cache_get (clock example_querying) ''q1'' (replyHandlers example_querying) =
       Some (UserReply 5)" "''q1'' \<noteq> []" "st_id ?r = Some ''q1''"
    and nm: "st_name ?r \<noteq> ''message''"
    by (simp_all add: example_querying_fields cache_get_def)
  from b have p0: "cache_get (clock example_querying) ''q1'' (replyHandlers example_querying) =
       Some (UserReply 5) \<and> ''q1'' \<noteq> [] \<and> st_id ?r = Some ''q1''"
    by (intro conjI)
  note pE = tE [THEN spec [where x = example_querying], THEN spec [where x = "''q1''"],
                THEN spec [where x = "UserReply 5"], THEN spec [where x = ?r], THEN mp, OF p0]
  note part = pE [THEN conjunct1] pE [THEN conjunct2, THEN conjunct1]
    pE [THEN conjunct2, THEN conjunct2]
  from part(2) nm obtain s' where s':
    "stanzaListener example_config ?r example_querying = Inr s'"
    by blast
  note ps = part(3) [THEN spec, THEN mp, OF s']
  have r: "replyCalls 5 (effects s') = replyCalls 5 (effects example_querying) @ [?r]"
    "cache_get 0 ''q1'' (replyHandlers s') = None"
    using ps [THEN conjunct2, THEN conjunct2, THEN mp, OF refl]
      ps [THEN conjunct2, THEN conjunct1, THEN spec, of 0]
    by simp_all
  have "replyCalls 5 (effects example_querying) = []"
    by (simp add: example_querying_def sendQuery_def Let_def)
  with r(1) have r1: "replyCalls 5 (effects s') = [?r]" by simp
  from part(1) s' have i1: "stepInvoked example_config (StanzaEv ?r) example_querying =
      [(UserReply 5, ?r)]"
    by simp
  from s' i1 r1 r(2) have fired: "\<exists>s'. stanzaListener example_config ?r example_querying = Inr s'
          \<and> stepInvoked example_config (StanzaEv ?r) example_querying = [(UserReply 5, ?r)]
          \<and> replyCalls 5 (effects s') = [?r]
          \<and> cache_get 0 ''q1'' (replyHandlers s') = None"
    by blast
  have b2: "cache_get (clock example_subscribing) ''q1'' (replyHandlers example_subscribing) =
       Some (SubscribeReply example_key 0)"
    by (simp add: example_subscribing_fields cache_get_put_same)
  from b2 b(2) b(3)
  have p2: "cache_get (clock example_subscribing) ''q1'' (replyHandlers example_subscribing) =
       Some (SubscribeReply example_key 0) \<and> ''q1'' \<noteq> [] \<and> st_id ?r = Some ''q1''"
    by (intro conjI)
  note pE2 = tE [THEN spec [where x = example_subscribing], THEN spec [where x = "''q1''"],
                 THEN spec [where x = "SubscribeReply example_key 0"], THEN spec [where x = ?r],
                 THEN mp, OF p2]
  note part2 = pE2 [THEN conjunct1] pE2 [THEN conjunct2, THEN conjunct1]
    pE2 [THEN conjunct2, THEN conjunct2]
  from part2(2) nm obtain s2 where s2:
    "stanzaListener example_config ?r example_subscribing = Inr s2"
    by blast
  note ps2 = part2(3) [THEN spec, THEN mp, OF s2]
  have r2: "cache_get 0 ''q1'' (replyHandlers s2) = None"
    using ps2 [THEN conjunct2, THEN conjunct1, THEN spec, of 0] by simp
  from part2(1) s2 have i2: "stepInvoked example_config (StanzaEv ?r) example_subscribing =
      [(SubscribeReply example_key 0, ?r)]"
    by simp
  from s2 i2 r2 have fired2: "\<exists>s'. stanzaListener example_config ?r example_subscribing = Inr s'
          \<and> stepInvoked example_config (StanzaEv ?r) example_subscribing =
              [(SubscribeReply example_key 0, ?r)]
          \<and> cache_get 0 ''q1'' (replyHandlers s') = None"
    by blast
  have c: "(''q1'', UserReply 5, 0) \<in> set (centries (replyHandlers example_querying))"
    "0 + ttl (replyHandlers example_querying) \<le> clock example_querying + 60"
    by (simp_all add: example_querying_fields)
  from c have c0: "(''q1'', UserReply 5, 0) \<in> set (centries (replyHandlers example_querying))
      \<and> 0 + ttl (replyHandlers example_querying) \<le> clock example_querying + 60"
    by (intro conjI)
  note pF = tF [THEN spec [where x = example_querying], THEN spec [where x = "''q1''"],
                THEN spec [where x = "UserReply 5"], THEN spec [where x = 0],
                THEN spec [where x = 60], THEN mp, OF c0]
  have expired: "(UserReply 5, ?err) \<in> set (stepInvoked example_config (TickEv 60) example_querying)"
    "?err \<in> set (replyCalls 5 (effects (tick 60 example_querying)))"
    "cache_get 60 ''q1'' (replyHandlers (tick 60 example_querying)) = None"
    using pF [THEN conjunct1] pF [THEN conjunct2, THEN conjunct2, THEN mp, OF refl]
      pF [THEN conjunct2, THEN conjunct1, THEN spec, of 60]
    by simp_all
  have c2: "(''q1'', SubscribeReply example_key 0, 0)
              \<in> set (centries (replyHandlers example_subscribing))"
    "0 + ttl (replyHandlers example_subscribing) \<le> clock example_subscribing + 60"
    by (simp_all add: example_subscribing_fields cache_put_def)
  from c2 have c3: "(''q1'', SubscribeReply example_key 0, 0)
              \<in> set (centries (replyHandlers example_subscribing))
      \<and> 0 + ttl (replyHandlers example_subscribing) \<le> clock example_subscribing + 60"
    by (intro conjI)
  note pF2 = tF [THEN spec [where x = example_subscribing], THEN spec [where x = "''q1''"],
                 THEN spec [where x = "SubscribeReply example_key 0"], THEN spec [where x = 0],
                 THEN spec [where x = 60], THEN mp, OF c3]
  have expired2: "(SubscribeReply example_key 0, ?err)
         \<in> set (stepInvoked example_config (TickEv 60) example_subscribing)"
    "cache_get 60 ''q1'' (replyHandlers (tick 60 example_subscribing)) = None"
    using pF2 [THEN conjunct1] pF2 [THEN conjunct2, THEN conjunct1, THEN spec, of 60]
    by simp_all
  from example_run_result example_invoked example_sent once inb q calls once'
    example_subscribe_invoked example_subscribe_sent conce b(1) nm fired b2 fired2
    c expired c2 expired2
  show ?thesis by (intro conjI)
qed

end
